theory Spec2Isabelle
  imports Main
begin

section \<open>Shared vocabulary: values, formatting, escaping, panics\<close>

text \<open>
  The repository holds several historical variants of one streaming XML builder.  Two of
  them are embedded here:
  \<^item> the order-preserving variant (attribute names kept in the slice \<open>attrnames\<close>, inline
    regions counted by an integer, no pretty switch); its definitions carry the source's
    names unchanged: \<open>Element\<close>, \<open>Attr\<close>, \<open>End\<close>, ...
  \<^item> the variant of \<open>builder.go\<close> (attributes in a plain map, a boolean \<open>inline\<close>, a
    boolean \<open>pretty\<close>); its definitions carry the suffix \<open>_p\<close>.

  The sink is an append-only byte buffer: the field \<open>writer\<close> holds everything written so
  far.  The source drops the error results of every write, so a write never fails in the
  model either.

  Go's \<open>int\<close> is modelled by \<open>int\<close> with the 64-bit two's complement wrap-around of every
  addition, subtraction and multiplication written out (\<open>wrap64\<close>).
\<close>

definition wrap64 :: "int \<Rightarrow> int" where
  "wrap64 x = (x + 2 ^ 63) mod 2 ^ 64 - 2 ^ 63"

definition maxInt :: int where
  "maxInt = 2 ^ 63 - 1"

text \<open>
  An argument of type \<open>interface{}\<close>.  What the builder observes of it is its rendering
  by \<open>fmt.Sprint\<close>, whether its kind is string (\<open>fmt.Sprint\<close> puts a space between two
  adjacent operands when neither is a string), and whether it is the sentinel \<open>Blank\<close>.
  \<open>Other r\<close> is any non-string value other than \<open>Blank\<close>, with \<open>r\<close> its rendering.
\<close>

datatype arg = Str string | Blank | Other string

fun render :: "arg \<Rightarrow> string" where
  "render (Str x) = x"
| "render Blank = []"
| "render (Other r) = r"

fun isString :: "arg \<Rightarrow> bool" where
  "isString (Str x) = True"
| "isString Blank = False"
| "isString (Other r) = False"

fun SprintFrom :: "bool \<Rightarrow> arg list \<Rightarrow> string" where
  "SprintFrom prevString [] = []"
| "SprintFrom prevString (a # as) =
     (if \<not> isString a \<and> \<not> prevString then '' '' else []) @ render a @ SprintFrom (isString a) as"

fun Sprint :: "arg list \<Rightarrow> string" where
  "Sprint [] = []"
| "Sprint (a # as) = render a @ SprintFrom (isString a) as"

definition s :: "arg list \<Rightarrow> string" where
  "s v = Sprint v"

definition newline :: string where
  "newline = [CHR 0x0A]"

definition dquote :: string where
  "dquote = [CHR 0x22]"

text \<open>
  \<open>strings.NewReplacer\<close> with one-byte patterns replaces every byte on its own, in one
  pass over the input.
\<close>

definition htmlEscapeByte :: "char \<Rightarrow> string" where
  "htmlEscapeByte c =
     (if c = CHR ''&'' then ''&amp;''
      else if c = CHR ''<'' then ''&lt;''
      else if c = CHR ''>'' then ''&gt;''
      else [c])"

definition htmlEscaper :: "string \<Rightarrow> string" where
  "htmlEscaper x = concat (map htmlEscapeByte x)"

definition attrEscapeByte :: "char \<Rightarrow> string" where
  "attrEscapeByte c =
     (if c = CHR ''&'' then ''&amp;''
      else if c = CHR ''<'' then ''&lt;''
      else if c = CHR ''>'' then ''&gt;''
      else if c = CHR 0x22 then ''&#34;''
      else [c])"

definition attrEscaper :: "string \<Rightarrow> string" where
  "attrEscaper x = concat (map attrEscapeByte x)"

text \<open>
  The run-time panics the builder can raise: an index into the empty \<open>elements\<close> slice,
  and \<open>strings.Repeat\<close> with a negative count or an overflowing result length.  A panic
  carries the builder as it is at that moment, so that what has reached the sink by then
  can be stated.
\<close>

datatype panic = IndexOutOfRange | NegativeRepeatCount | RepeatOverflow

datatype ('a, 'st) result = Ok 'a | Panic panic 'st

definition andThen :: "('a, 'st) result \<Rightarrow> ('a \<Rightarrow> ('b, 'st) result) \<Rightarrow> ('b, 'st) result" where
  "andThen r f = (case r of Ok a \<Rightarrow> f a | Panic e st \<Rightarrow> Panic e st)"

definition Repeat :: "string \<Rightarrow> int \<Rightarrow> panic + string" where
  "Repeat x count =
     (if count = 0 then Inr []
      else if count = 1 then Inr x
      else if count < 0 then Inl NegativeRepeatCount
      else if int (length x) * count > maxInt then Inl RepeatOverflow
      else Inr (concat (replicate (nat count) x)))"

text \<open>A Go map read: a missing key yields the zero value, the empty string.\<close>

definition lookup :: "(string \<rightharpoonup> string) \<Rightarrow> string \<Rightarrow> string" where
  "lookup m k = (case m k of None \<Rightarrow> [] | Some v \<Rightarrow> v)"

section \<open>The order-preserving variant\<close>

record Builder =
  writer :: string
  buildingElement :: bool
  attributes :: "string \<rightharpoonup> string"
  attrnames :: "string list"
  elements :: "string list"
  indentString :: string
  indent :: string
  offset :: int
  emptyElements :: bool
  inline :: int

definition New :: Builder where
  "New = \<lparr> writer = [], buildingElement = False, attributes = Map.empty, attrnames = [],
           elements = [], indentString = [], indent = ''  '', offset = 0,
           emptyElements = True, inline = 0 \<rparr>"

definition Fprint :: "string \<Rightarrow> Builder \<Rightarrow> Builder" where
  "Fprint x b = b\<lparr>writer := writer b @ x\<rparr>"

definition indentValue :: "Builder \<Rightarrow> int" where
  "indentValue b = wrap64 (wrap64 (int (length (elements b)) + offset b) - 1)"

definition doIndent :: "Builder \<Rightarrow> (string \<times> Builder, Builder) result" where
  "doIndent b =
     (if int (length (indentString b)) \<noteq> wrap64 (int (length (indent b)) * indentValue b)
      then (case Repeat (indent b) (indentValue b) of
              Inl e \<Rightarrow> Panic e b
            | Inr x \<Rightarrow> Ok (x, b\<lparr>indentString := x\<rparr>))
      else Ok (indentString b, b))"

definition attrText :: "(string \<rightharpoonup> string) \<Rightarrow> string \<Rightarrow> string" where
  "attrText m key = '' '' @ key @ ''='' @ dquote @ attrEscaper (lookup m key) @ dquote"

definition outputElement :: "bool \<Rightarrow> Builder \<Rightarrow> (Builder, Builder) result" where
  "outputElement close b =
     (if buildingElement b then
        andThen (if inline b = 0 then doIndent b else Ok ([], b)) (\<lambda>(ind, b1).
          if elements b1 = [] then Panic IndexOutOfRange b1
          else
            let buf = ind @ ''<'' @ last (elements b1)
                      @ concat (map (attrText (attributes b1)) (attrnames b1));
                b2 = b1\<lparr>attributes := Map.empty, attrnames := []\<rparr>;
                b3 = (if close then b2\<lparr>elements := butlast (elements b2)\<rparr> else b2);
                buf2 = buf @ (if close then (if emptyElements b3 then '' />'' else ''>'') else ''>'');
                buf3 = buf2 @ (if inline b3 = 0 then newline else [])
            in Ok (b3\<lparr>writer := writer b3 @ buf3, buildingElement := False\<rparr>))
      else Ok b)"

definition Flush :: "Builder \<Rightarrow> (Builder, Builder) result" where
  "Flush b = outputElement False b"

definition Inline :: "Builder \<Rightarrow> (Builder, Builder) result" where
  "Inline b =
     andThen (if inline b = 0 then
                andThen (Flush b) (\<lambda>b1.
                  let b2 = b1\<lparr>offset := wrap64 (offset b1 + 1)\<rparr> in
                  andThen (doIndent b2) (\<lambda>(ind, b3).
                    let b4 = Fprint ind b3 in
                    Ok (b4\<lparr>offset := wrap64 (offset b4 - 1)\<rparr>)))
              else Ok b)
       (\<lambda>b5. Ok (b5\<lparr>inline := wrap64 (inline b5 + 1)\<rparr>))"

definition EndInline :: "Builder \<Rightarrow> (Builder, Builder) result" where
  "EndInline b =
     (let b1 = b\<lparr>inline := wrap64 (inline b - 1)\<rparr> in
      if inline b1 = 0 then Ok (Fprint newline b1) else Ok b1)"

definition Attr :: "string \<Rightarrow> arg \<Rightarrow> Builder \<Rightarrow> Builder" where
  "Attr name v b =
     (let b1 = (if attributes b name = None then b\<lparr>attrnames := attrnames b @ [name]\<rparr> else b)
      in b1\<lparr>attributes := (attributes b1)(name \<mapsto> s [v])\<rparr>)"

definition Chars :: "arg list \<Rightarrow> Builder \<Rightarrow> (Builder, Builder) result" where
  "Chars chars b =
     andThen (outputElement False b) (\<lambda>b1.
       let line = Sprint chars in
       if inline b1 > 0 then Ok (Fprint (htmlEscaper line) b1)
       else andThen (doIndent b1) (\<lambda>(ind, b2).
              Ok (Fprint (ind @ indent b2 @ htmlEscaper line @ newline) b2)))"

definition CharsNoEscape :: "arg list \<Rightarrow> Builder \<Rightarrow> (Builder, Builder) result" where
  "CharsNoEscape chars b =
     andThen (outputElement False b) (\<lambda>b1.
       let line = Sprint chars in
       if inline b1 > 0 then Ok (Fprint line b1)
       else andThen (doIndent b1) (\<lambda>(ind, b2).
              Ok (Fprint (ind @ indent b2 @ line @ newline) b2)))"

definition Cdata :: "arg list \<Rightarrow> Builder \<Rightarrow> (Builder, Builder) result" where
  "Cdata data b =
     andThen (outputElement False b) (\<lambda>b1.
       let line = Sprint data in
       if inline b1 > 0 then Ok (Fprint (''<![CDATA['' @ line @ '']]>'') b1)
       else andThen (doIndent b1) (\<lambda>(ind, b2).
              Ok (Fprint (ind @ indent b2 @ ''<![CDATA['' @ line @ '']]>'' @ newline) b2)))"

text \<open>
  The loop \<open>for i := first; i < len(args); i += 2\<close> of \<open>Element\<close>, over the arguments
  from index \<open>first\<close> on, whose number is even.
\<close>

fun attrPairs :: "arg list \<Rightarrow> Builder \<Rightarrow> Builder" where
  "attrPairs (k # v # rest) b =
     attrPairs rest
       (let a = s [k]; x = s [v] in
        if a \<noteq> [] \<and> (x \<noteq> [] \<or> v = Blank) then Attr a (Str x) b else b)"
| "attrPairs _ b = b"

definition Element :: "string \<Rightarrow> arg list \<Rightarrow> Builder \<Rightarrow> (Builder, Builder) result" where
  "Element element args b =
     andThen (if buildingElement b then outputElement False b else Ok b) (\<lambda>b1.
       let b2 = b1\<lparr>buildingElement := True, elements := elements b1 @ [element]\<rparr>;
           first = length args mod 2;
           b3 = attrPairs (drop first args) b2
       in if first \<noteq> 0 then Chars [hd args] b3 else Ok b3)"

definition ElementNoEscape :: "string \<Rightarrow> arg list \<Rightarrow> Builder \<Rightarrow> (Builder, Builder) result" where
  "ElementNoEscape element args b =
     andThen (if buildingElement b then outputElement False b else Ok b) (\<lambda>b1.
       let b2 = b1\<lparr>buildingElement := True, elements := elements b1 @ [element]\<rparr>;
           first = length args mod 2;
           b3 = attrPairs (drop first args) b2
       in if first \<noteq> 0 then CharsNoEscape [hd args] b3 else Ok b3)"

definition End :: "Builder \<Rightarrow> (Builder, Builder) result" where
  "End b =
     (if buildingElement b then outputElement True b
      else
        andThen (if inline b > 0 then Ok ([], b) else doIndent b) (\<lambda>(ind, b1).
          if elements b1 = [] then Panic IndexOutOfRange b1
          else
            let b2 = Fprint (ind @ ''</'' @ last (elements b1) @ ''>''
                             @ (if inline b1 > 0 then [] else newline)) b1
            in Ok (b2\<lparr>elements := butlast (elements b2)\<rparr>)))"

definition Tag :: "string \<Rightarrow> arg list \<Rightarrow> Builder \<Rightarrow> (Builder, Builder) result" where
  "Tag element args b =
     andThen (Inline b) (\<lambda>b1.
       andThen (Element element args b1) (\<lambda>b2.
         andThen (End b2) (\<lambda>b3. EndInline b3)))"

definition TagNoEscape :: "string \<Rightarrow> arg list \<Rightarrow> Builder \<Rightarrow> (Builder, Builder) result" where
  "TagNoEscape element args b =
     andThen (Inline b) (\<lambda>b1.
       andThen (ElementNoEscape element args b1) (\<lambda>b2.
         andThen (End b2) (\<lambda>b3. EndInline b3)))"

definition Offset :: "int \<Rightarrow> Builder \<Rightarrow> Builder" where
  "Offset delta b = b\<lparr>offset := wrap64 (offset b + delta)\<rparr>"

definition Indent :: "string \<Rightarrow> Builder \<Rightarrow> Builder" where
  "Indent x b = b\<lparr>indent := x\<rparr>"

definition Empty :: "bool \<Rightarrow> Builder \<Rightarrow> Builder" where
  "Empty useEmpty b = b\<lparr>emptyElements := useEmpty\<rparr>"

section \<open>The variant of builder.go\<close>

text \<open>
  Here the attributes live in a Go map only, and \<open>outputElement\<close> walks it with
  \<open>for key, value := range b.attributes\<close>.  Go leaves the order of that walk open, so
  every operation that may run the loop takes the order of the visit as an argument
  \<open>ord\<close>: the keys in the order the run time happens to deliver them.  For a real run
  \<open>ord\<close> lists every key of the map once.
\<close>

record PBuilder =
  writer_p :: string
  buildingElement_p :: bool
  attributes_p :: "string \<rightharpoonup> string"
  elements_p :: "string list"
  indentString_p :: string
  indent_p :: string
  offset_p :: int
  inline_p :: bool
  pretty_p :: bool

definition New_p :: PBuilder where
  "New_p = \<lparr> writer_p = [], buildingElement_p = False, attributes_p = Map.empty,
             elements_p = [], indentString_p = [], indent_p = ''  '', offset_p = 0,
             inline_p = False, pretty_p = True \<rparr>"

definition s_p :: "arg \<Rightarrow> string" where
  "s_p v = render v"

definition Fprint_p :: "string \<Rightarrow> PBuilder \<Rightarrow> PBuilder" where
  "Fprint_p x b = b\<lparr>writer_p := writer_p b @ x\<rparr>"

definition indentValue_p :: "PBuilder \<Rightarrow> int" where
  "indentValue_p b = wrap64 (wrap64 (int (length (elements_p b)) + offset_p b) - 1)"

definition doIndent_p :: "PBuilder \<Rightarrow> (string \<times> PBuilder, PBuilder) result" where
  "doIndent_p b =
     (if \<not> pretty_p b then Ok ([], b)
      else if int (length (indentString_p b)) \<noteq> wrap64 (int (length (indent_p b)) * indentValue_p b)
      then (case Repeat (indent_p b) (indentValue_p b) of
              Inl e \<Rightarrow> Panic e b
            | Inr x \<Rightarrow> Ok (x, b\<lparr>indentString_p := x\<rparr>))
      else Ok (indentString_p b, b))"

definition attrText_p :: "(string \<rightharpoonup> string) \<Rightarrow> string \<Rightarrow> string" where
  "attrText_p m key =
     (let v = lookup m key in
      if key \<noteq> [] \<and> v \<noteq> [] then '' '' @ key @ ''='' @ dquote @ attrEscaper v @ dquote
      else [])"

definition outputElement_p :: "string list \<Rightarrow> bool \<Rightarrow> bool \<Rightarrow> PBuilder \<Rightarrow> (PBuilder, PBuilder) result" where
  "outputElement_p ord close nl b =
     (if buildingElement_p b then
        andThen (doIndent_p b) (\<lambda>(ind, b1).
          if elements_p b1 = [] then Panic IndexOutOfRange b1
          else
            let buf = ind @ ''<'' @ last (elements_p b1)
                      @ concat (map (attrText_p (attributes_p b1)) ord);
                b2 = b1\<lparr>attributes_p := Map.empty\<rparr>;
                b3 = (if close then b2\<lparr>elements_p := butlast (elements_p b2)\<rparr> else b2);
                buf2 = buf @ (if close then '' />'' else ''>'');
                buf3 = buf2 @ (if nl then newline else [])
            in Ok (b3\<lparr>writer_p := writer_p b3 @ buf3, buildingElement_p := False\<rparr>))
      else Ok b)"

definition Attr_p :: "string \<Rightarrow> arg \<Rightarrow> PBuilder \<Rightarrow> PBuilder" where
  "Attr_p name v b = b\<lparr>attributes_p := (attributes_p b)(name \<mapsto> s_p v)\<rparr>"

definition Chars_p :: "string list \<Rightarrow> arg \<Rightarrow> PBuilder \<Rightarrow> (PBuilder, PBuilder) result" where
  "Chars_p ord chars b =
     andThen (outputElement_p ord False (pretty_p b \<and> \<not> inline_p b) b) (\<lambda>b1.
       if inline_p b1 \<or> \<not> pretty_p b1 then Ok (Fprint_p (htmlEscaper (s_p chars)) b1)
       else andThen (doIndent_p b1) (\<lambda>(ind, b2).
              Ok (Fprint_p (ind @ indent_p b2 @ htmlEscaper (s_p chars) @ newline) b2)))"

fun attrPairs_p :: "arg list \<Rightarrow> PBuilder \<Rightarrow> PBuilder" where
  "attrPairs_p (k # v # rest) b =
     attrPairs_p rest (b\<lparr>attributes_p := (attributes_p b)(s_p k \<mapsto> s_p v)\<rparr>)"
| "attrPairs_p _ b = b"

text \<open>
  \<open>Element\<close> may walk the map twice: \<open>ord1\<close> is the order of the walk that flushes the
  element pending before, \<open>ord2\<close> the order of the walk that \<open>Chars\<close> starts for the new
  element when the number of arguments is odd.
\<close>

definition Element_p :: "string list \<Rightarrow> string list \<Rightarrow> string \<Rightarrow> arg list \<Rightarrow> PBuilder \<Rightarrow> (PBuilder, PBuilder) result" where
  "Element_p ord1 ord2 element args b =
     andThen (if buildingElement_p b then outputElement_p ord1 False (pretty_p b) b else Ok b) (\<lambda>b1.
       let b2 = b1\<lparr>buildingElement_p := True, elements_p := elements_p b1 @ [element]\<rparr>;
           first = length args mod 2;
           b3 = attrPairs_p (drop first args) b2
       in if first \<noteq> 0 then Chars_p ord2 (hd args) b3 else Ok b3)"

definition End_p :: "string list \<Rightarrow> PBuilder \<Rightarrow> (PBuilder, PBuilder) result" where
  "End_p ord b =
     (if buildingElement_p b then outputElement_p ord True (pretty_p b) b
      else
        let nl = (if \<not> pretty_p b then [] else newline) in
        andThen (if inline_p b then Ok ([], b) else doIndent_p b) (\<lambda>(ind, b1).
          if elements_p b1 = [] then Panic IndexOutOfRange b1
          else
            let b2 = Fprint_p (ind @ ''</'' @ last (elements_p b1) @ ''>'' @ nl) b1
            in Ok (b2\<lparr>elements_p := butlast (elements_p b2)\<rparr>)))"

definition Offset_p :: "int \<Rightarrow> PBuilder \<Rightarrow> PBuilder" where
  "Offset_p delta b = b\<lparr>offset_p := wrap64 (offset_p b + delta)\<rparr>"

definition Indent_p :: "string \<Rightarrow> PBuilder \<Rightarrow> PBuilder" where
  "Indent_p x b = b\<lparr>indent_p := x\<rparr>"

definition Pretty_p :: "bool \<Rightarrow> PBuilder \<Rightarrow> PBuilder" where
  "Pretty_p pretty b = b\<lparr>pretty_p := pretty\<rparr>"

section \<open>Instructions, doctype, and call sequences of the order-preserving variant\<close>

text \<open>
  \<open>Instruct\<close> writes as it goes; with an odd number of arguments the read of
  \<open>args[i+1]\<close> panics after the earlier pieces have reached the sink.
\<close>

fun instructPairs :: "arg list \<Rightarrow> Builder \<Rightarrow> (Builder, Builder) result" where
  "instructPairs [] b = Ok b"
| "instructPairs [k] b = Panic IndexOutOfRange b"
| "instructPairs (k # v # rest) b =
     instructPairs rest (Fprint ('' '' @ render k @ ''='' @ dquote @ attrEscaper (s [v]) @ dquote) b)"

definition Instruct :: "string \<Rightarrow> arg list \<Rightarrow> Builder \<Rightarrow> (Builder, Builder) result" where
  "Instruct name args b =
     andThen (instructPairs args (Fprint (''<?'' @ name) b)) (\<lambda>b1.
       Ok (Fprint (''?>'' @ newline) b1))"

definition InstructXML :: "Builder \<Rightarrow> (Builder, Builder) result" where
  "InstructXML b = Instruct ''xml'' [Str ''version'', Str ''1.0'', Str ''encoding'', Str ''UTF-8''] b"

definition Doctype :: "string \<Rightarrow> Builder \<Rightarrow> Builder" where
  "Doctype doctype b = Fprint (''<!DOCTYPE '' @ doctype @ ''>'' @ newline) b"

text \<open>
  The calls a client can make, as data, and a run of a sequence of them; a panic ends
  the run.  \<open>written\<close> is what the sink holds when a run has ended, either way.
\<close>

datatype call =
    CElement string "arg list"
  | CElementNoEscape string "arg list"
  | CAttr string arg
  | CEnd
  | CTag string "arg list"
  | CTagNoEscape string "arg list"
  | CChars "arg list"
  | CCharsNoEscape "arg list"
  | CCdata "arg list"
  | CInstruct string "arg list"
  | CInstructXML
  | CDoctype string
  | CFlush
  | COffset int
  | CIndent string
  | CEmpty bool
  | CInline
  | CEndInline

fun exec :: "call \<Rightarrow> Builder \<Rightarrow> (Builder, Builder) result" where
  "exec (CElement e args) b = Element e args b"
| "exec (CElementNoEscape e args) b = ElementNoEscape e args b"
| "exec (CAttr n v) b = Ok (Attr n v b)"
| "exec CEnd b = End b"
| "exec (CTag e args) b = Tag e args b"
| "exec (CTagNoEscape e args) b = TagNoEscape e args b"
| "exec (CChars cs) b = Chars cs b"
| "exec (CCharsNoEscape cs) b = CharsNoEscape cs b"
| "exec (CCdata cs) b = Cdata cs b"
| "exec (CInstruct n args) b = Instruct n args b"
| "exec CInstructXML b = InstructXML b"
| "exec (CDoctype d) b = Ok (Doctype d b)"
| "exec CFlush b = Flush b"
| "exec (COffset d) b = Ok (Offset d b)"
| "exec (CIndent x) b = Ok (Indent x b)"
| "exec (CEmpty u) b = Ok (Empty u b)"
| "exec CInline b = Inline b"
| "exec CEndInline b = EndInline b"

fun run :: "call list \<Rightarrow> Builder \<Rightarrow> (Builder, Builder) result" where
  "run [] b = Ok b"
| "run (c # cs) b = andThen (exec c b) (run cs)"

text \<open>The calls that open or close an inline region themselves.\<close>

fun regionCall :: "call \<Rightarrow> bool" where
  "regionCall CInline = True"
| "regionCall CEndInline = True"
| "regionCall _ = False"

definition stateOf :: "('st, 'st) result \<Rightarrow> 'st" where
  "stateOf r = (case r of Ok b \<Rightarrow> b | Panic e b \<Rightarrow> b)"

definition written :: "(Builder, Builder) result \<Rightarrow> string" where
  "written r = writer (stateOf r)"

definition written_p :: "(PBuilder, PBuilder) result \<Rightarrow> string" where
  "written_p r = writer_p (stateOf r)"

definition isOk :: "('a, 'st) result \<Rightarrow> bool" where
  "isOk r = (case r of Ok a \<Rightarrow> True | Panic e st \<Rightarrow> False)"

section \<open>The attribute buffer, read as a list of bindings\<close>

text \<open>
  \<open>pending b\<close> lists the bindings in the order in which the loop of \<open>outputElement\<close>
  visits them: the names of \<open>attrnames\<close>, each with the value the map holds for it.
  \<open>attrsText\<close> is the text that loop appends for such a list.
\<close>

definition pending :: "Builder \<Rightarrow> (string \<times> string) list" where
  "pending b = map (\<lambda>key. (key, lookup (attributes b) key)) (attrnames b)"

definition bindingText :: "string \<times> string \<Rightarrow> string" where
  "bindingText kv = '' '' @ fst kv @ ''='' @ dquote @ attrEscaper (snd kv) @ dquote"

definition attrsText :: "(string \<times> string) list \<Rightarrow> string" where
  "attrsText kvs = concat (map bindingText kvs)"

text \<open>
  The buffer is coherent when \<open>attrnames\<close> lists the keys of the map, each once.  \<open>New\<close>
  starts so, and \<open>Attr\<close> and \<open>outputElement\<close>, the only writers of the two fields, keep
  it so.
\<close>

definition attrsCoherent :: "Builder \<Rightarrow> bool" where
  "attrsCoherent b \<longleftrightarrow> distinct (attrnames b) \<and> set (attrnames b) = dom (attributes b)"

text \<open>
  The rule of the specification, in its words: the first occurrence of a name fixes its
  position, the last occurrence fixes its value.
\<close>

definition firstOccurrences :: "string list \<Rightarrow> string list" where
  "firstOccurrences ks = rev (remdups (rev ks))"

definition lastValue :: "(string \<times> string) list \<Rightarrow> string \<Rightarrow> string" where
  "lastValue bs k = (case map_of (rev bs) k of None \<Rightarrow> [] | Some v \<Rightarrow> v)"

definition firstPositionLastValue :: "(string \<times> string) list \<Rightarrow> (string \<times> string) list" where
  "firstPositionLastValue bs = map (\<lambda>k. (k, lastValue bs k)) (firstOccurrences (map fst bs))"

text \<open>A sequence of \<open>Attr\<close> calls, and the bindings it supplies.\<close>

definition attrCalls :: "(string \<times> arg) list \<Rightarrow> Builder \<Rightarrow> Builder" where
  "attrCalls calls b = foldl (\<lambda>b' (n, v). Attr n v b') b calls"

definition callBindings :: "(string \<times> arg) list \<Rightarrow> (string \<times> string) list" where
  "callBindings calls = map (\<lambda>(n, v). (n, render v)) calls"

text \<open>
  The key/value arguments of \<open>Element\<close>, as bindings: all of them (\<open>argBindings\<close>), and
  those that pass the guard of \<open>Element\<close> (\<open>keptBindings\<close>).
\<close>

fun argBindings :: "arg list \<Rightarrow> (string \<times> string) list" where
  "argBindings (k # v # rest) = (render k, render v) # argBindings rest"
| "argBindings _ = []"

fun keptBindings :: "arg list \<Rightarrow> (string \<times> string) list" where
  "keptBindings (k # v # rest) =
     (if render k \<noteq> [] \<and> (render v \<noteq> [] \<or> v = Blank) then [(render k, render v)] else [])
     @ keptBindings rest"
| "keptBindings _ = []"

text \<open>Overwriting the value of one name in a list of bindings, in place.\<close>

definition setValue :: "string \<Rightarrow> string \<Rightarrow> (string \<times> string) list \<Rightarrow> (string \<times> string) list" where
  "setValue n x kvs = map (\<lambda>kv. if fst kv = n then (n, x) else kv) kvs"

text \<open>A builder with one pending element, as \<open>Element("person")\<close> leaves a fresh one.\<close>

definition person :: Builder where
  "person = New\<lparr>buildingElement := True, elements := [''person'']\<rparr>"

text \<open>The bindings the loop of \<open>outputElement\<close> in \<open>builder.go\<close> meets when it walks the map in
  the order \<open>ord\<close>, and the test it applies to each.\<close>

definition visited :: "(string \<rightharpoonup> string) \<Rightarrow> string list \<Rightarrow> (string \<times> string) list" where
  "visited m ord = map (\<lambda>key. (key, lookup m key)) ord"

definition nonEmptyBinding :: "string \<times> string \<Rightarrow> bool" where
  "nonEmptyBinding kv \<longleftrightarrow> fst kv \<noteq> [] \<and> snd kv \<noteq> []"

text \<open>A builder of \<open>builder.go\<close> with the pending element \<open>e\<close> and three attributes set
  through \<open>Attr\<close>, two of them with an empty name or value.\<close>

definition threeAttrs :: PBuilder where
  "threeAttrs = Attr_p [] (Str ''x'') (Attr_p ''k'' (Str []) (Attr_p ''a'' (Other ''1'')
                  (New_p\<lparr>buildingElement_p := True, elements_p := [''e'']\<rparr>)))"

text \<open>A fresh builder with the element \<open>root\<close> open and its start tag flushed, and the same
  inside an inline region; likewise for \<open>builder.go\<close>.\<close>

definition inRoot :: Builder where
  "inRoot = New\<lparr>elements := [''root'']\<rparr>"

definition inRoot_p :: PBuilder where
  "inRoot_p = New_p\<lparr>elements_p := [''root'']\<rparr>"






text \<open>Two runs that differ in the depth of the inline region only: \<open>setInline\<close> and
  \<open>deeper\<close> change the counter of a builder, \<open>mapState\<close> changes the builder a result
  carries.\<close>

definition setInline :: "int \<Rightarrow> Builder \<Rightarrow> Builder" where
  "setInline k b = b\<lparr>inline := k\<rparr>"

definition deeper :: "Builder \<Rightarrow> Builder" where
  "deeper b = b\<lparr>inline := inline b + 1\<rparr>"

definition mapState :: "('st \<Rightarrow> 'st) \<Rightarrow> ('st, 'st) result \<Rightarrow> ('st, 'st) result" where
  "mapState g r = (case r of Ok x \<Rightarrow> Ok (g x) | Panic e x \<Rightarrow> Panic e (g x))"

text \<open>A builder left by an \<open>EndInline\<close> that no \<open>Inline\<close> matches: the counter is \<open>-1\<close>.\<close>

definition unmatched :: Builder where
  "unmatched = stateOf (run [CElement ''a'' [], CFlush, CEndInline] New)"

section \<open>Basic facts about the indentation cache\<close>

lemma doIndent_Ok:
  "doIndent b = Ok (x, b') \<Longrightarrow> b' = b\<lparr>indentString := x\<rparr>"
  by (auto simp: doIndent_def split: if_splits sum.splits)

lemma doIndent_Panic:
  "doIndent b = Panic e b' \<Longrightarrow> b' = b"
  by (auto simp: doIndent_def split: if_splits sum.splits)

lemma doIndent_p_Ok:
  "doIndent_p b = Ok (x, b') \<Longrightarrow> b' = b \<or> b' = b\<lparr>indentString_p := x\<rparr>"
  by (auto simp: doIndent_p_def split: if_splits sum.splits)

lemma doIndent_p_Panic:
  "doIndent_p b = Panic e b' \<Longrightarrow> b' = b"
  by (auto simp: doIndent_p_def split: if_splits sum.splits)

section \<open>End on an empty stack\<close>

text \<open>
  C2.  With no open element, \<open>End\<close> never reads \<open>elements\<close> out of bounds silently and
  never writes: in both variants the call ends in a run-time panic (the index check of
  \<open>b.elements[len(b.elements)-1]\<close>, or the negative count check of \<open>strings.Repeat\<close> that
  \<open>doIndent\<close> reaches first), and at that moment the sink holds exactly what it held
  before the call.
\<close>

theorem End_empty_stack_panics:
  "(elements b = [] \<longrightarrow> (\<exists>e b'. End b = Panic e b' \<and> writer b' = writer b \<and> elements b' = []))
   \<and> (elements_p p = [] \<longrightarrow>
        (\<exists>e p'. End_p ord p = Panic e p' \<and> writer_p p' = writer_p p \<and> elements_p p' = []))"
proof (intro conjI impI)
  assume empty: "elements b = []"
  show "\<exists>e b'. End b = Panic e b' \<and> writer b' = writer b \<and> elements b' = []"
  proof (cases "doIndent b")
    case (Ok r)
    obtain x b1 where r: "r = (x, b1)" by (cases r)
    have b1: "b1 = b\<lparr>indentString := x\<rparr>" using Ok r doIndent_Ok by blast
    show ?thesis using empty Ok r b1
      by (simp add: End_def outputElement_def andThen_def)
  next
    case (Panic e b1)
    have "b1 = b" using Panic doIndent_Panic by blast
    then show ?thesis using empty Panic
      by (simp add: End_def outputElement_def andThen_def)
  qed
next
  assume empty: "elements_p p = []"
  show "\<exists>e p'. End_p ord p = Panic e p' \<and> writer_p p' = writer_p p \<and> elements_p p' = []"
  proof (cases "doIndent_p p")
    case (Ok r)
    obtain x p1 where r: "r = (x, p1)" by (cases r)
    have "p1 = p \<or> p1 = p\<lparr>indentString_p := x\<rparr>" using Ok r doIndent_p_Ok by blast
    then show ?thesis using empty Ok r
      by (auto simp: End_p_def outputElement_p_def andThen_def Let_def)
  next
    case (Panic e p1)
    have "p1 = p" using Panic doIndent_p_Panic by blast
    then show ?thesis using empty Panic
      by (simp add: End_p_def outputElement_p_def andThen_def Let_def)
  qed
qed

theorem End_empty_stack_panics_witness:
  "elements New = [] \<and> End New = Panic NegativeRepeatCount New
   \<and> elements_p New_p = [] \<and> End_p [] New_p = Panic NegativeRepeatCount New_p"
  using End_empty_stack_panics [of New New_p "[]"]
  by (simp add: New_def New_p_def End_def End_p_def doIndent_def doIndent_p_def andThen_def
      indentValue_def indentValue_p_def wrap64_def Repeat_def)

section \<open>Order of the attributes in the flushed start tag\<close>

lemma s_single: "s [v] = render v"
  by (cases v) (simp_all add: s_def)

lemma Attr_coherent: "attrsCoherent b \<Longrightarrow> attrsCoherent (Attr n v b)"
  by (auto simp: attrsCoherent_def Attr_def Let_def)

lemma attrCalls_snoc: "attrCalls (cs @ [(n, v)]) b = Attr n v (attrCalls cs b)"
  by (simp add: attrCalls_def)

lemma attrCalls_coherent: "attrsCoherent b \<Longrightarrow> attrsCoherent (attrCalls cs b)"
  by (induction cs rule: rev_induct) (auto simp: attrCalls_snoc Attr_coherent attrCalls_def)

lemma pending_Attr:
  "attrsCoherent b \<Longrightarrow>
   pending (Attr n v b) =
     (if n \<in> set (attrnames b) then setValue n (render v) (pending b)
      else pending b @ [(n, render v)])"
  by (auto simp: attrsCoherent_def Attr_def Let_def pending_def setValue_def lookup_def s_single
      split: option.splits)

lemma firstOccurrences_snoc:
  "firstOccurrences (ks @ [k]) = (if k \<in> set ks then firstOccurrences ks else firstOccurrences ks @ [k])"
  by (simp add: firstOccurrences_def)

lemma set_firstOccurrences: "set (firstOccurrences ks) = set ks"
  by (simp add: firstOccurrences_def)

lemma lastValue_snoc: "lastValue (bs @ [(n, x)]) k = (if k = n then x else lastValue bs k)"
  by (simp add: lastValue_def)

lemma rule_snoc:
  "firstPositionLastValue (bs @ [(n, x)]) =
     (if n \<in> fst ` set bs then setValue n x (firstPositionLastValue bs)
      else firstPositionLastValue bs @ [(n, x)])"
  by (auto simp: firstPositionLastValue_def firstOccurrences_snoc lastValue_snoc setValue_def
      set_firstOccurrences)

lemma rule_distinct: "distinct (map fst kvs) \<Longrightarrow> firstPositionLastValue kvs = kvs"
proof (induction kvs rule: rev_induct)
  case Nil
  then show ?case by (simp add: firstPositionLastValue_def firstOccurrences_def)
next
  case (snoc kv kvs)
  then show ?case by (cases kv) (auto simp: rule_snoc)
qed

lemma map_fst_pending: "map fst (pending b) = attrnames b"
  by (simp add: pending_def comp_def)

lemma map_fst_rule: "map fst (firstPositionLastValue bs) = firstOccurrences (map fst bs)"
  by (simp add: firstPositionLastValue_def comp_def)

lemma pending_attrCalls:
  "attrsCoherent b \<Longrightarrow>
   pending (attrCalls cs b) = firstPositionLastValue (pending b @ callBindings cs)"
proof (induction cs rule: rev_induct)
  case Nil
  then show ?case
    by (simp add: attrCalls_def callBindings_def rule_distinct map_fst_pending attrsCoherent_def)
next
  case (snoc c cs)
  obtain n v where c: "c = (n, v)" by (cases c)
  have coh: "attrsCoherent (attrCalls cs b)" using snoc.prems by (rule attrCalls_coherent)
  have names: "set (attrnames (attrCalls cs b)) = fst ` set (pending b @ callBindings cs)"
    using snoc.IH [OF snoc.prems] map_fst_pending [of "attrCalls cs b"] map_fst_rule
    by (metis set_firstOccurrences set_map)
  show ?case
    using snoc.IH [OF snoc.prems] coh names
    by (simp add: c attrCalls_snoc pending_Attr callBindings_def rule_snoc
        flip: append_assoc)
qed


lemma Attr_frame:
  "Attr n v b = b\<lparr>attrnames := attrnames (Attr n v b), attributes := attributes (Attr n v b)\<rparr>"
  by (simp add: Attr_def Let_def)

lemma attrCalls_fields:
  "writer (attrCalls cs b) = writer b \<and> buildingElement (attrCalls cs b) = buildingElement b
   \<and> elements (attrCalls cs b) = elements b \<and> inline (attrCalls cs b) = inline b
   \<and> emptyElements (attrCalls cs b) = emptyElements b"
proof (induction cs rule: rev_induct)
  case Nil
  then show ?case by (simp add: attrCalls_def)
next
  case (snoc c cs)
  obtain n v where c: "c = (n, v)" by (cases c)
  show ?case using snoc.IH
    by (simp add: c attrCalls_snoc Attr_def Let_def)
qed

lemma attrText_binding: "map (attrText (attributes b)) (attrnames b) = map bindingText (pending b)"
  by (simp add: attrText_def bindingText_def pending_def)

lemma outputElement_written:
  assumes "buildingElement b" "elements b \<noteq> []"
    and "(if inline b = 0 then doIndent b else Ok ([], b)) = Ok (ind, b1)"
  shows "written (outputElement close b) =
           writer b @ ind @ ''<'' @ last (elements b) @ attrsText (pending b)
           @ (if close \<and> emptyElements b then '' />'' else ''>'')
           @ (if inline b = 0 then newline else [])"
proof -
  have b1: "b1 = b \<or> b1 = b\<lparr>indentString := ind\<rparr>"
    using assms(3) doIndent_Ok by (auto split: if_splits)
  then show ?thesis
    using assms
    by (auto simp: outputElement_def andThen_def Let_def written_def stateOf_def attrsText_def
        attrText_binding [symmetric] attrText_def)
qed

lemma attrPairs_kept:
  "attrPairs args b = attrCalls (map (\<lambda>(k, x). (k, Str x)) (keptBindings args)) b"
proof (induction args b rule: attrPairs.induct)
  case (1 k v rest b)
  then show ?case
    by (simp add: Let_def s_single attrCalls_def)
qed (simp_all add: attrCalls_def)

lemma callBindings_kept:
  "callBindings (map (\<lambda>(k, x). (k, Str x)) kvs) = kvs"
  by (induction kvs) (auto simp: callBindings_def)

text \<open>
  C1, as amended.  For every sequence of bindings applied to a pending element before it
  is flushed (the \<open>Attr\<close> calls, and those key/value arguments of \<open>Element\<close> that pass
  its guard: a non-empty name, and a value that is non-empty or the sentinel \<open>Blank\<close>),
  the flushed start tag holds each name once, the names in the order in which each was
  first supplied, each with the value of the last binding applied to it.  Bindings
  already in the buffer when the element was opened come first, by the same rule.
\<close>

theorem attribute_order:
  assumes "attrsCoherent b" "buildingElement b"
  shows "pending (attrCalls calls b) = firstPositionLastValue (pending b @ callBindings calls)
       \<and> distinct (map fst (pending (attrCalls calls b)))
       \<and> (elements b \<noteq> [] \<longrightarrow>
            (if inline b = 0 then doIndent (attrCalls calls b) else Ok ([], attrCalls calls b)) = Ok (ind, b1) \<longrightarrow>
            written (outputElement close (attrCalls calls b)) =
              writer b @ ind @ ''<'' @ last (elements b)
              @ attrsText (firstPositionLastValue (pending b @ callBindings calls))
              @ (if close \<and> emptyElements b then '' />'' else ''>'')
              @ (if inline b = 0 then newline else []))
       \<and> (even (length args) \<longrightarrow> \<not> buildingElement b0 \<longrightarrow> attrsCoherent b0 \<longrightarrow>
            (\<exists>b2. Element e args b0 = Ok b2 \<and> buildingElement b2 \<and> attrsCoherent b2
               \<and> last (elements b2) = e
               \<and> pending b2 = firstPositionLastValue (pending b0 @ keptBindings args)))"
proof (intro conjI impI)
  show p: "pending (attrCalls calls b) = firstPositionLastValue (pending b @ callBindings calls)"
    using assms(1) by (rule pending_attrCalls)
  have "attrsCoherent (attrCalls calls b)" using assms(1) by (rule attrCalls_coherent)
  then show "distinct (map fst (pending (attrCalls calls b)))"
    by (simp add: map_fst_pending attrsCoherent_def)
next
  assume ne: "elements b \<noteq> []"
    and ind: "(if inline b = 0 then doIndent (attrCalls calls b) else Ok ([], attrCalls calls b)) = Ok (ind, b1)"
  have "written (outputElement close (attrCalls calls b)) =
          writer (attrCalls calls b) @ ind @ ''<'' @ last (elements (attrCalls calls b))
          @ attrsText (pending (attrCalls calls b))
          @ (if close \<and> emptyElements (attrCalls calls b) then '' />'' else ''>'')
          @ (if inline (attrCalls calls b) = 0 then newline else [])"
    by (rule outputElement_written [where ?b1.0 = b1]) (use assms ne ind in \<open>simp_all add: attrCalls_fields\<close>)
  then show "written (outputElement close (attrCalls calls b)) =
              writer b @ ind @ ''<'' @ last (elements b)
              @ attrsText (firstPositionLastValue (pending b @ callBindings calls))
              @ (if close \<and> emptyElements b then '' />'' else ''>'')
              @ (if inline b = 0 then newline else [])"
    using assms(1) by (simp add: attrCalls_fields pending_attrCalls)
next
  assume ev: "even (length args)" and nb: "\<not> buildingElement b0" and coh: "attrsCoherent b0"
  let ?b = "b0\<lparr>buildingElement := True, elements := elements b0 @ [e]\<rparr>"
  let ?cs = "map (\<lambda>(k, x). (k, Str x)) (keptBindings args)"
  have coh': "attrsCoherent ?b" using coh by (simp add: attrsCoherent_def)
  have E: "Element e args b0 = Ok (attrCalls ?cs ?b)"
    using ev nb by (simp add: Element_def andThen_def Let_def attrPairs_kept)
  have "pending (attrCalls ?cs ?b) = firstPositionLastValue (pending ?b @ keptBindings args)"
    using coh' by (simp add: pending_attrCalls callBindings_kept)
  moreover have "pending ?b = pending b0" by (simp add: pending_def)
  ultimately show "\<exists>b2. Element e args b0 = Ok b2 \<and> buildingElement b2 \<and> attrsCoherent b2
               \<and> last (elements b2) = e
               \<and> pending b2 = firstPositionLastValue (pending b0 @ keptBindings args)"
    using E coh' by (simp add: attrCalls_fields attrCalls_coherent)
qed


lemma wrap64_small [simp]: "wrap64 0 = 0" "wrap64 (-1) = -1" "wrap64 1 = 1" "wrap64 (-2) = -2" "wrap64 2 = 2"
  by (simp_all add: wrap64_def)

theorem attribute_order_witness:
  "attrsCoherent person \<and> buildingElement person \<and> elements person \<noteq> []
   \<and> pending (attrCalls [(''name'', Str ''Joran''), (''age'', Other ''40''), (''name'', Str ''J'')] person)
       = [(''name'', ''J''), (''age'', ''40'')]
   \<and> written (outputElement True
        (attrCalls [(''name'', Str ''Joran''), (''age'', Other ''40''), (''name'', Str ''J'')] person))
       = ''<person name='' @ dquote @ ''J'' @ dquote @ '' age='' @ dquote @ ''40'' @ dquote @ '' />'' @ newline
   \<and> even (length [Str ''id'', Other ''1'', Str ''x'', Str [], Str ''id'', Blank])
   \<and> \<not> buildingElement New \<and> attrsCoherent New
   \<and> pending (stateOf (Element ''person'' [Str ''id'', Other ''1'', Str ''x'', Str [], Str ''id'', Blank] New))
       = [(''id'', [])]"
proof -
  let ?cs = "[(''name'', Str ''Joran''), (''age'', Other ''40''), (''name'', Str ''J'')]"
  have coh: "attrsCoherent person" "buildingElement person"
    by (simp_all add: person_def New_def attrsCoherent_def)
  have ind: "(if inline person = 0 then doIndent (attrCalls ?cs person) else Ok ([], attrCalls ?cs person))
             = Ok ([], attrCalls ?cs person)"
    by (simp add: person_def New_def doIndent_def indentValue_def attrCalls_def Attr_def Let_def)
  have New: "\<not> buildingElement New" "attrsCoherent New"
    by (simp_all add: New_def attrsCoherent_def)
  note inst = attribute_order [OF coh, of ?cs "[]" "attrCalls ?cs person" True
      "[Str ''id'', Other ''1'', Str ''x'', Str [], Str ''id'', Blank]" New "''person''"]
  have rule: "firstPositionLastValue (pending person @ callBindings ?cs) = [(''name'', ''J''), (''age'', ''40'')]"
    by (simp add: person_def New_def pending_def callBindings_def firstPositionLastValue_def
        firstOccurrences_def lastValue_def)
  have rule2: "firstPositionLastValue (pending New @ keptBindings [Str ''id'', Other ''1'', Str ''x'', Str [], Str ''id'', Blank])
      = [(''id'', [])]"
    by (simp add: New_def pending_def firstPositionLastValue_def
        firstOccurrences_def lastValue_def)
  show ?thesis
    using inst ind coh New rule rule2
    by (auto simp: stateOf_def attrsText_def bindingText_def attrEscaper_def attrEscapeByte_def
        person_def New_def)
qed

text \<open>
  The claim as worded counts every key/value argument of \<open>Element\<close> as a binding.  The
  guard of \<open>Element\<close> drops a pair whose value renders empty: after
  \<open>Element("e", "k", "v", "k", "")\<close> the last binding of \<open>k\<close> is the empty string, yet the
  tag carries the value \<open>v\<close>.
\<close>

theorem attribute_order_counterexample:
  "argBindings [Str ''k'', Str ''v'', Str ''k'', Str []] = [(''k'', ''v''), (''k'', [])]
   \<and> firstPositionLastValue (argBindings [Str ''k'', Str ''v'', Str ''k'', Str []]) = [(''k'', [])]
   \<and> pending (stateOf (Element ''e'' [Str ''k'', Str ''v'', Str ''k'', Str []] New)) = [(''k'', ''v'')]
   \<and> written (andThen (Element ''e'' [Str ''k'', Str ''v'', Str ''k'', Str []] New) End)
       = ''<e k='' @ dquote @ ''v'' @ dquote @ '' />'' @ newline"
  by (simp add: firstPositionLastValue_def firstOccurrences_def lastValue_def Element_def New_def
      andThen_def Let_def s_def Attr_def pending_def lookup_def stateOf_def written_def End_def
      outputElement_def doIndent_def indentValue_def attrText_def attrEscaper_def attrEscapeByte_def)

section \<open>Attr without a pending element\<close>

lemma Element_no_args:
  "\<not> buildingElement b \<Longrightarrow>
   Element e [] b = Ok (b\<lparr>buildingElement := True, elements := elements b @ [e]\<rparr>)"
  by (simp add: Element_def andThen_def)

lemma End_pending: "buildingElement b \<Longrightarrow> End b = outputElement True b"
  by (simp add: End_def)

text \<open>
  C4, as amended.  \<open>Attr\<close> called while no element is pending writes nothing to the sink
  and changes nothing but the attribute buffer, where it records the binding as it would
  for a pending element; \<open>Element\<close> does not clear the buffer, so the binding belongs to
  the next element opened and is written in its start tag.  Both variants behave so (the
  source says: ``when not building an element it will add attributes to the next element
  to be build'').
\<close>

theorem Attr_without_pending:
  assumes "\<not> buildingElement b" "attrsCoherent b"
  shows "Attr n v b = b\<lparr>attrnames := (if n \<in> set (attrnames b) then attrnames b else attrnames b @ [n]),
                         attributes := (attributes b)(n \<mapsto> render v)\<rparr>
     \<and> writer (Attr n v b) = writer b
     \<and> pending (Attr n v b) = firstPositionLastValue (pending b @ [(n, render v)])
     \<and> Element e [] (Attr n v b)
         = Ok ((Attr n v b)\<lparr>buildingElement := True, elements := elements b @ [e]\<rparr>)
     \<and> ((if inline b = 0
           then doIndent ((Attr n v b)\<lparr>buildingElement := True, elements := elements b @ [e]\<rparr>)
           else Ok ([], (Attr n v b)\<lparr>buildingElement := True, elements := elements b @ [e]\<rparr>))
          = Ok (ind, b1) \<longrightarrow>
         written (andThen (Element e [] (Attr n v b)) End)
           = writer b @ ind @ ''<'' @ e
             @ attrsText (firstPositionLastValue (pending b @ [(n, render v)]))
             @ (if emptyElements b then '' />'' else ''>'')
             @ (if inline b = 0 then newline else []))
     \<and> (\<not> buildingElement_p p \<longrightarrow>
          Attr_p n v p = p\<lparr>attributes_p := (attributes_p p)(n \<mapsto> render v)\<rparr>
          \<and> writer_p (Attr_p n v p) = writer_p p
          \<and> Element_p ord1 ord2 e [] (Attr_p n v p)
              = Ok (p\<lparr>attributes_p := (attributes_p p)(n \<mapsto> render v),
                       buildingElement_p := True, elements_p := elements_p p @ [e]\<rparr>))"
proof -
  let ?a = "Attr n v b"
  let ?b2 = "?a\<lparr>buildingElement := True, elements := elements b @ [e]\<rparr>"
  have A: "?a = b\<lparr>attrnames := (if n \<in> set (attrnames b) then attrnames b else attrnames b @ [n]),
                         attributes := (attributes b)(n \<mapsto> render v)\<rparr>"
    using assms(2) by (auto simp: Attr_def Let_def s_single attrsCoherent_def)
  have W: "writer ?a = writer b" by (simp add: Attr_def Let_def)
  have P: "pending ?a = firstPositionLastValue (pending b @ [(n, render v)])"
    using pending_attrCalls [OF assms(2), of "[(n, v)]"]
    by (simp add: attrCalls_def callBindings_def)
  have nb: "\<not> buildingElement ?a" using assms(1) by (simp add: Attr_def Let_def)
  have els: "elements ?a = elements b" "inline ?a = inline b" "emptyElements ?a = emptyElements b"
    by (simp_all add: Attr_def Let_def)
  have E: "Element e [] ?a = Ok ?b2"
    using Element_no_args [OF nb] by (simp add: els)
  have O: "(if inline b = 0 then doIndent ?b2 else Ok ([], ?b2)) = Ok (ind, b1) \<longrightarrow>
         written (andThen (Element e [] ?a) End)
           = writer b @ ind @ ''<'' @ e
             @ attrsText (firstPositionLastValue (pending b @ [(n, render v)]))
             @ (if emptyElements b then '' />'' else ''>'')
             @ (if inline b = 0 then newline else [])"
  proof
    assume ind: "(if inline b = 0 then doIndent ?b2 else Ok ([], ?b2)) = Ok (ind, b1)"
    have "written (outputElement True ?b2) =
           writer ?b2 @ ind @ ''<'' @ last (elements ?b2) @ attrsText (pending ?b2)
           @ (if True \<and> emptyElements ?b2 then '' />'' else ''>'')
           @ (if inline ?b2 = 0 then newline else [])"
      by (rule outputElement_written [where ?b1.0 = b1]) (use ind in \<open>simp_all add: els\<close>)
    moreover have "pending ?b2 = pending ?a" by (simp add: pending_def)
    ultimately show "written (andThen (Element e [] ?a) End)
           = writer b @ ind @ ''<'' @ e
             @ attrsText (firstPositionLastValue (pending b @ [(n, render v)]))
             @ (if emptyElements b then '' />'' else ''>'')
             @ (if inline b = 0 then newline else [])"
      by (simp add: E andThen_def End_pending P W els)
  qed
  have Pv: "\<not> buildingElement_p p \<longrightarrow>
          Attr_p n v p = p\<lparr>attributes_p := (attributes_p p)(n \<mapsto> render v)\<rparr>
          \<and> writer_p (Attr_p n v p) = writer_p p
          \<and> Element_p ord1 ord2 e [] (Attr_p n v p)
              = Ok (p\<lparr>attributes_p := (attributes_p p)(n \<mapsto> render v),
                       buildingElement_p := True, elements_p := elements_p p @ [e]\<rparr>)"
    by (simp add: Attr_p_def s_p_def Element_p_def andThen_def)
  show ?thesis using A W P E O Pv by blast
qed

theorem Attr_without_pending_witness:
  "\<not> buildingElement New \<and> attrsCoherent New
   \<and> pending (Attr ''age'' (Other ''40'') New) = [(''age'', ''40'')]
   \<and> written (andThen (Element ''person'' [] (Attr ''age'' (Other ''40'') New)) End)
       = ''<person age='' @ dquote @ ''40'' @ dquote @ '' />'' @ newline
   \<and> \<not> buildingElement_p New_p
   \<and> attributes_p (stateOf (Element_p [] [] ''person'' [] (Attr_p ''age'' (Other ''40'') New_p))) ''age''
       = Some ''40''"
proof -
  let ?b2 = "(Attr ''age'' (Other ''40'') New)\<lparr>buildingElement := True, elements := elements New @ [''person'']\<rparr>"
  have h: "\<not> buildingElement New" "attrsCoherent New"
    by (simp_all add: New_def attrsCoherent_def)
  have hp: "\<not> buildingElement_p New_p" by (simp add: New_p_def)
  have ind: "(if inline New = 0 then doIndent ?b2 else Ok ([], ?b2)) = Ok ([], ?b2)"
    by (simp add: New_def doIndent_def indentValue_def Attr_def Let_def)
  have rule: "firstPositionLastValue (pending New @ [(''age'', render (Other ''40''))]) = [(''age'', ''40'')]"
    by (simp add: New_def pending_def firstPositionLastValue_def firstOccurrences_def lastValue_def)
  note inst = Attr_without_pending [OF h, of "''age''" "Other ''40''" "''person''" "[]" ?b2 New_p "[]" "[]"]
  have P: "pending (Attr ''age'' (Other ''40'') New) = [(''age'', ''40'')]"
    using inst [THEN conjunct2, THEN conjunct2, THEN conjunct1] by (simp only: rule)
  have O: "written (andThen (Element ''person'' [] (Attr ''age'' (Other ''40'') New)) End)
       = ''<person age='' @ dquote @ ''40'' @ dquote @ '' />'' @ newline"
    using inst [THEN conjunct2, THEN conjunct2, THEN conjunct2, THEN conjunct2, THEN conjunct1,
        THEN mp, OF ind]
    unfolding rule
    by (simp add: attrsText_def bindingText_def attrEscaper_def attrEscapeByte_def New_def)
  have Pv: "attributes_p (stateOf (Element_p [] [] ''person'' [] (Attr_p ''age'' (Other ''40'') New_p))) ''age''
       = Some ''40''"
    using inst [THEN conjunct2, THEN conjunct2, THEN conjunct2, THEN conjunct2, THEN conjunct2,
        THEN mp, OF hp, THEN conjunct2, THEN conjunct2]
    by (simp add: stateOf_def)
  show ?thesis using h hp P O Pv by simp
qed

text \<open>
  The claim as worded calls \<open>Attr\<close> without a pending element a no-op.  On a fresh
  builder the call changes the state, and the element opened next carries the attribute,
  as \<open>TestAttr\<close> expects.
\<close>

theorem Attr_without_pending_counterexample:
  "\<not> buildingElement New \<and> Attr ''age'' (Other ''40'') New \<noteq> New
   \<and> written (run [CElement ''person'' [Str ''name'', Str ''Joran''], CEnd] New)
       = ''<person name='' @ dquote @ ''Joran'' @ dquote @ '' />'' @ newline
   \<and> written (run [CAttr ''age'' (Other ''40''), CElement ''person'' [Str ''name'', Str ''Joran''], CEnd] New)
       = ''<person age='' @ dquote @ ''40'' @ dquote @ '' name='' @ dquote @ ''Joran'' @ dquote @ '' />'' @ newline
   \<and> \<not> buildingElement_p New_p \<and> Attr_p ''age'' (Other ''40'') New_p \<noteq> New_p
   \<and> written_p (andThen (Element_p [] [] ''person'' [Str ''name'', Str ''Joran''] New_p) (End_p [''name'']))
       = ''<person name='' @ dquote @ ''Joran'' @ dquote @ '' />'' @ newline
   \<and> written_p (andThen (Element_p [] [] ''person'' [Str ''name'', Str ''Joran'']
                  (Attr_p ''age'' (Other ''40'') New_p)) (End_p [''name'', ''age'']))
       = ''<person name='' @ dquote @ ''Joran'' @ dquote @ '' age='' @ dquote @ ''40'' @ dquote @ '' />'' @ newline"
  by (simp add: Element_def New_def andThen_def Let_def s_def Attr_def lookup_def stateOf_def
      written_def End_def outputElement_def doIndent_def indentValue_def attrText_def attrEscaper_def
      attrEscapeByte_def New_p_def Attr_p_def s_p_def Element_p_def End_p_def outputElement_p_def
      doIndent_p_def indentValue_p_def attrText_p_def written_p_def)

section \<open>Attributes with an empty name or value\<close>

lemma attrText_p_filter:
  "concat (map (attrText_p m) ord) = attrsText (filter nonEmptyBinding (visited m ord))"
  by (induction ord)
    (simp_all add: attrText_p_def attrsText_def bindingText_def visited_def nonEmptyBinding_def Let_def)

lemma outputElement_p_written:
  assumes "buildingElement_p p" "elements_p p \<noteq> []" "doIndent_p p = Ok (ind, p1)"
  shows "written_p (outputElement_p ord close nl p) =
           writer_p p @ ind @ ''<'' @ last (elements_p p)
           @ attrsText (filter nonEmptyBinding (visited (attributes_p p) ord))
           @ (if close then '' />'' else ''>'')
           @ (if nl then newline else [])"
proof -
  have "p1 = p \<or> p1 = p\<lparr>indentString_p := ind\<rparr>"
    using assms(3) by (rule doIndent_p_Ok)
  then show ?thesis
    using assms
    by (auto simp: outputElement_p_def andThen_def Let_def written_p_def stateOf_def
        attrText_p_filter)
qed

lemma Attr_fields:
  "writer (Attr n v b) = writer b" "buildingElement (Attr n v b) = buildingElement b"
  "elements (Attr n v b) = elements b" "inline (Attr n v b) = inline b"
  "emptyElements (Attr n v b) = emptyElements b"
  by (simp_all add: Attr_def Let_def)

lemma set_rule_subset: "set (firstPositionLastValue bs) \<subseteq> set bs"
proof
  fix kv assume "kv \<in> set (firstPositionLastValue bs)"
  then obtain k where k: "k \<in> fst ` set bs" and kv: "kv = (k, lastValue bs k)"
    by (auto simp: firstPositionLastValue_def set_firstOccurrences)
  from k have "k \<in> fst ` set (rev bs)" by simp
  then obtain v where v: "map_of (rev bs) k = Some v"
    by (metis domD dom_map_of_conv_image_fst)
  then have "(k, v) \<in> set (rev bs)" by (rule map_of_SomeD)
  then show "kv \<in> set bs" using kv v by (simp add: lastValue_def)
qed

lemma keptBindings_guard:
  "kv \<in> set (keptBindings args) \<Longrightarrow> fst kv \<noteq> [] \<and> (snd kv \<noteq> [] \<or> Blank \<in> set args)"
  by (induction args rule: keptBindings.induct) (auto split: if_splits)

lemma Element_even_pending:
  assumes "even (length args)" "\<not> buildingElement b" "attrnames b = []" "attributes b = Map.empty"
  shows "Element e args b = Ok (stateOf (Element e args b))"
    and "pending (stateOf (Element e args b)) = firstPositionLastValue (keptBindings args)"
proof -
  let ?b = "b\<lparr>buildingElement := True, elements := elements b @ [e]\<rparr>"
  let ?cs = "map (\<lambda>(k, x). (k, Str x)) (keptBindings args)"
  have E: "Element e args b = Ok (attrCalls ?cs ?b)"
    using assms(1,2) by (simp add: Element_def andThen_def Let_def attrPairs_kept)
  then show "Element e args b = Ok (stateOf (Element e args b))" by (simp add: stateOf_def)
  have coh: "attrsCoherent ?b" using assms(3,4) by (simp add: attrsCoherent_def)
  have "pending ?b = []" using assms(3) by (simp add: pending_def)
  then show "pending (stateOf (Element e args b)) = firstPositionLastValue (keptBindings args)"
    using pending_attrCalls [OF coh, of ?cs] E by (simp add: stateOf_def callBindings_kept)
qed

text \<open>
  C10.  In \<open>builder.go\<close> the flush writes, of the bindings it meets in the map, only those
  whose name and value are both non-empty, whatever the order of the walk: an attribute
  set to the empty string never appears.  In the order-preserving variant the guard sits
  in \<open>Element\<close>: of its key/value pairs only those with a non-empty name and a value
  that is non-empty or \<open>Blank\<close> reach the buffer, a pair with \<open>Blank\<close> is kept with the
  empty value, and a binding made by a direct \<open>Attr\<close> call is recorded and flushed
  whatever its name and value are.
\<close>

theorem empty_attributes_filtered:
  "(buildingElement_p p \<longrightarrow> elements_p p \<noteq> [] \<longrightarrow> doIndent_p p = Ok (ind, p1) \<longrightarrow>
      written_p (outputElement_p ord close nl p) =
        writer_p p @ ind @ ''<'' @ last (elements_p p)
        @ attrsText (filter nonEmptyBinding (visited (attributes_p p) ord))
        @ (if close then '' />'' else ''>'')
        @ (if nl then newline else []))
   \<and> (even (length args) \<longrightarrow> \<not> buildingElement b \<longrightarrow> attrnames b = [] \<longrightarrow> attributes b = Map.empty \<longrightarrow>
        Element e args b = Ok (stateOf (Element e args b))
        \<and> pending (stateOf (Element e args b)) = firstPositionLastValue (keptBindings args)
        \<and> (\<forall>kv \<in> set (pending (stateOf (Element e args b))).
              fst kv \<noteq> [] \<and> (snd kv \<noteq> [] \<or> Blank \<in> set args))
        \<and> (render k \<noteq> [] \<longrightarrow> pending (stateOf (Element e [k, Blank] b)) = [(render k, [])])
        \<and> (render k = [] \<or> (render v = [] \<and> v \<noteq> Blank) \<longrightarrow>
              pending (stateOf (Element e [k, v] b)) = []))
   \<and> (attrnames b' = [] \<longrightarrow> attributes b' = Map.empty \<longrightarrow>
        pending (Attr n v' b') = [(n, render v')]
        \<and> (buildingElement b' \<longrightarrow> elements b' \<noteq> [] \<longrightarrow>
             (if inline b' = 0 then doIndent (Attr n v' b') else Ok ([], Attr n v' b')) = Ok (ind', b1') \<longrightarrow>
             written (outputElement close (Attr n v' b')) =
               writer b' @ ind' @ ''<'' @ last (elements b') @ bindingText (n, render v')
               @ (if close \<and> emptyElements b' then '' />'' else ''>'')
               @ (if inline b' = 0 then newline else [])))"
proof (intro conjI impI)
  assume "buildingElement_p p" "elements_p p \<noteq> []" "doIndent_p p = Ok (ind, p1)"
  then show "written_p (outputElement_p ord close nl p) =
        writer_p p @ ind @ ''<'' @ last (elements_p p)
        @ attrsText (filter nonEmptyBinding (visited (attributes_p p) ord))
        @ (if close then '' />'' else ''>'')
        @ (if nl then newline else [])"
    by (rule outputElement_p_written)
next
  assume h: "even (length args)" "\<not> buildingElement b" "attrnames b = []" "attributes b = Map.empty"
  show "Element e args b = Ok (stateOf (Element e args b))"
    using h by (rule Element_even_pending)
  show P: "pending (stateOf (Element e args b)) = firstPositionLastValue (keptBindings args)"
    using h by (rule Element_even_pending)
  show "\<forall>kv \<in> set (pending (stateOf (Element e args b))).
              fst kv \<noteq> [] \<and> (snd kv \<noteq> [] \<or> Blank \<in> set args)"
    unfolding P using set_rule_subset keptBindings_guard by blast
  have two: "even (length [k, x])" for x :: arg by simp
  {
    assume "render k \<noteq> []"
    then show "pending (stateOf (Element e [k, Blank] b)) = [(render k, [])]"
      using Element_even_pending(2) [OF two h(2,3,4), of e Blank]
      by (simp add: firstPositionLastValue_def firstOccurrences_def lastValue_def)
  }
  {
    assume "render k = [] \<or> (render v = [] \<and> v \<noteq> Blank)"
    then show "pending (stateOf (Element e [k, v] b)) = []"
      using Element_even_pending(2) [OF two h(2,3,4), of e v]
      by (auto simp: firstPositionLastValue_def firstOccurrences_def lastValue_def)
  }
next
  assume h: "attrnames b' = []" "attributes b' = Map.empty"
  show P: "pending (Attr n v' b') = [(n, render v')]"
    using h by (simp add: Attr_def Let_def pending_def lookup_def s_single)
  assume "buildingElement b'" "elements b' \<noteq> []"
    "(if inline b' = 0 then doIndent (Attr n v' b') else Ok ([], Attr n v' b')) = Ok (ind', b1')"
  then have "written (outputElement close (Attr n v' b')) =
          writer (Attr n v' b') @ ind' @ ''<'' @ last (elements (Attr n v' b'))
          @ attrsText (pending (Attr n v' b'))
          @ (if close \<and> emptyElements (Attr n v' b') then '' />'' else ''>'')
          @ (if inline (Attr n v' b') = 0 then newline else [])"
    by (intro outputElement_written [where ?b1.0 = b1']) (simp_all add: Attr_fields)
  then show "written (outputElement close (Attr n v' b')) =
               writer b' @ ind' @ ''<'' @ last (elements b') @ bindingText (n, render v')
               @ (if close \<and> emptyElements b' then '' />'' else ''>'')
               @ (if inline b' = 0 then newline else [])"
    unfolding P by (simp add: Attr_fields attrsText_def)
qed


theorem empty_attributes_filtered_witness:
  "buildingElement_p threeAttrs \<and> elements_p threeAttrs \<noteq> []
   \<and> doIndent_p threeAttrs = Ok ([], threeAttrs)
   \<and> written_p (outputElement_p [''k'', [], ''a''] True True threeAttrs)
        = ''<e a='' @ dquote @ ''1'' @ dquote @ '' />'' @ newline
   \<and> even (length [Str ''k'', Blank, Str [], Str ''v'', Str ''x'', Str []])
   \<and> \<not> buildingElement New \<and> attrnames New = [] \<and> attributes New = Map.empty
   \<and> pending (stateOf (Element ''e'' [Str ''k'', Blank, Str [], Str ''v'', Str ''x'', Str []] New))
        = [(''k'', [])]
   \<and> buildingElement person \<and> elements person \<noteq> [] \<and> attrnames person = []
   \<and> attributes person = Map.empty
   \<and> written (outputElement True (Attr ''k'' (Str []) person))
        = ''<person k='' @ dquote @ dquote @ '' />'' @ newline"
proof -
  let ?args = "[Str ''k'', Blank, Str [], Str ''v'', Str ''x'', Str []]"
  have hp: "buildingElement_p threeAttrs" "elements_p threeAttrs \<noteq> []"
    "doIndent_p threeAttrs = Ok ([], threeAttrs)"
    by (simp_all add: threeAttrs_def Attr_p_def New_p_def doIndent_p_def indentValue_p_def)
  have hn: "even (length ?args)" "\<not> buildingElement New" "attrnames New = []"
    "attributes New = Map.empty"
    by (simp_all add: New_def)
  have hb: "attrnames person = []" "attributes person = Map.empty" "buildingElement person"
    "elements person \<noteq> []"
    by (simp_all add: person_def New_def)
  have ind: "(if inline person = 0 then doIndent (Attr ''k'' (Str []) person)
              else Ok ([], Attr ''k'' (Str []) person)) = Ok ([], Attr ''k'' (Str []) person)"
    by (simp add: person_def New_def doIndent_def indentValue_def Attr_def Let_def)
  note inst = empty_attributes_filtered [of threeAttrs "[]" threeAttrs "[''k'', [], ''a'']" True True
      ?args New "''e''" "Str ''k''" "Str []" person "''k''" "Str []" "[]" "Attr ''k'' (Str []) person"]
  have A: "written_p (outputElement_p [''k'', [], ''a''] True True threeAttrs)
        = ''<e a='' @ dquote @ ''1'' @ dquote @ '' />'' @ newline"
    using inst [THEN conjunct1, THEN mp, THEN mp, THEN mp, OF hp]
    by (simp add: threeAttrs_def Attr_p_def New_p_def visited_def lookup_def nonEmptyBinding_def
        attrsText_def bindingText_def attrEscaper_def attrEscapeByte_def s_p_def)
  have B: "pending (stateOf (Element ''e'' ?args New)) = [(''k'', [])]"
    using inst [THEN conjunct2, THEN conjunct1, THEN mp, THEN mp, THEN mp, THEN mp, OF hn,
        THEN conjunct2, THEN conjunct1]
    by (simp add: firstPositionLastValue_def firstOccurrences_def lastValue_def)
  have C: "written (outputElement True (Attr ''k'' (Str []) person))
        = ''<person k='' @ dquote @ dquote @ '' />'' @ newline"
    using inst [THEN conjunct2, THEN conjunct2, THEN mp, THEN mp, OF hb(1,2), THEN conjunct2,
        THEN mp, THEN mp, THEN mp, OF hb(3,4) ind]
    by (simp add: person_def New_def bindingText_def attrEscaper_def)
  show ?thesis using hp hn hb A B C by simp
qed

section \<open>The odd argument of Element\<close>

lemma andThen_assoc: "andThen (andThen r f) g = andThen r (\<lambda>x. andThen (f x) g)"
  by (cases r) (simp_all add: andThen_def)

lemma andThen_Ok: "andThen (Ok a) f = f a"
  by (simp add: andThen_def)

lemma odd_length_Cons: "even (length rest) \<Longrightarrow> length (a # rest) mod 2 = 1"
  by (simp add: mod_Suc)

text \<open>
  C6, as amended.  With an odd number of arguments \<open>Element\<close> takes its first argument
  (\<open>args[0]\<close>), not its last, as the immediate character content: the call is the call
  of \<open>Element\<close> with the remaining arguments as key/value pairs, followed by \<open>Chars\<close> on
  the first argument, so the text is escaped and laid out exactly as \<open>Chars\<close> does it.
  Both variants behave so.
\<close>

theorem Element_leading_text:
  assumes "even (length rest)"
  shows "Element e (a # rest) b = andThen (Element e rest b) (Chars [a])
       \<and> Element_p ord1 ord2 e (a # rest) p = andThen (Element_p ord1 ord3 e rest p) (Chars_p ord2 a)"
proof
  have one: "length (a # rest) mod 2 = 1" using assms by (rule odd_length_Cons)
  have zero: "length rest mod 2 = 0" using assms by presburger
  show "Element e (a # rest) b = andThen (Element e rest b) (Chars [a])"
    unfolding Element_def andThen_assoc one zero
    by (simp add: Let_def andThen_Ok)
  show "Element_p ord1 ord2 e (a # rest) p = andThen (Element_p ord1 ord3 e rest p) (Chars_p ord2 a)"
    unfolding Element_p_def andThen_assoc one zero
    by (simp add: Let_def andThen_Ok)
qed

theorem Element_leading_text_witness:
  "even (length [Str ''b'', Str ''c''])
   \<and> written (andThen (Element ''e'' [Str ''b'', Str ''c''] New) (Chars [Str ''a<'']))
       = written (Element ''e'' [Str ''a<'', Str ''b'', Str ''c''] New)
   \<and> written_p (andThen (Element_p [] [] ''e'' [Str ''b'', Str ''c''] New_p) (Chars_p [''b''] (Str ''a<'')))
       = written_p (Element_p [] [''b''] ''e'' [Str ''a<'', Str ''b'', Str ''c''] New_p)"
  using Element_leading_text [of "[Str ''b'', Str ''c'']" "''e''" "Str ''a<''" New "[]" "[''b'']" New_p "[]"]
  by simp

text \<open>
  The claim as worded takes the trailing argument as the text.  For
  \<open>Element("e", "a", "b", "c")\<close> that reading gives the attribute \<open>a="b"\<close> and the text
  \<open>c\<close>; the code writes the attribute \<open>b="c"\<close> and the text \<open>a\<close>.
\<close>

theorem Element_leading_text_counterexample:
  "odd (length [Str ''a'', Str ''b'', Str ''c''])
   \<and> written (Element ''e'' [Str ''a'', Str ''b'', Str ''c''] New)
       \<noteq> written (andThen (Element ''e'' [Str ''a'', Str ''b''] New) (Chars [Str ''c'']))
   \<and> written (Element ''e'' [Str ''a'', Str ''b'', Str ''c''] New)
       = ''<e b='' @ dquote @ ''c'' @ dquote @ ''>'' @ newline @ ''  a'' @ newline
   \<and> written (andThen (Element ''e'' [Str ''a'', Str ''b''] New) (Chars [Str ''c'']))
       = ''<e a='' @ dquote @ ''b'' @ dquote @ ''>'' @ newline @ ''  c'' @ newline
   \<and> written_p (Element_p [] [''b''] ''e'' [Str ''a'', Str ''b'', Str ''c''] New_p)
       = ''<e b='' @ dquote @ ''c'' @ dquote @ ''>'' @ newline @ ''  a'' @ newline
   \<and> written_p (andThen (Element_p [] [] ''e'' [Str ''a'', Str ''b''] New_p) (Chars_p [''a''] (Str ''c'')))
       = ''<e a='' @ dquote @ ''b'' @ dquote @ ''>'' @ newline @ ''  c'' @ newline"
  by (simp add: Element_def New_def andThen_def Let_def s_def Attr_def lookup_def stateOf_def
      written_def Chars_def outputElement_def doIndent_def indentValue_def attrText_def attrEscaper_def
      attrEscapeByte_def New_p_def s_p_def Element_p_def Chars_p_def outputElement_p_def
      doIndent_p_def indentValue_p_def attrText_p_def written_p_def Fprint_def Fprint_p_def
      htmlEscaper_def htmlEscapeByte_def)

section \<open>Character data\<close>

lemma htmlEscaper_append: "htmlEscaper (x @ y) = htmlEscaper x @ htmlEscaper y"
  by (simp add: htmlEscaper_def)

lemma htmlEscaper_single:
  "htmlEscaper [c] =
     (if c = CHR ''&'' then ''&amp;'' else if c = CHR ''<'' then ''&lt;''
      else if c = CHR ''>'' then ''&gt;'' else [c])"
  by (simp add: htmlEscaper_def htmlEscapeByte_def)

lemma htmlEscaper_changes: "(htmlEscaper [c] = [c]) = (c \<notin> {CHR ''&'', CHR ''<'', CHR ''>''})"
  by (simp add: htmlEscaper_single)

lemma Sprint_single: "Sprint [v] = render v"
  by simp

lemma doIndent_stable:
  assumes "doIndent b = Ok (ind, b1)"
    and "elements b2 = elements b1" "offset b2 = offset b1" "indent b2 = indent b1"
    and "indentString b2 = indentString b1"
  shows "doIndent b2 = Ok (ind, b2)"
proof (cases "int (length (indentString b)) \<noteq> wrap64 (int (length (indent b)) * indentValue b)")
  case True
  then have rep: "Repeat (indent b) (indentValue b) = Inr ind" and b1: "b1 = b\<lparr>indentString := ind\<rparr>"
    using assms(1) by (auto simp: doIndent_def split: sum.splits)
  have same: "indent b2 = indent b" "indentValue b2 = indentValue b" "indentString b2 = ind"
    using assms(2-5) b1 by (simp_all add: indentValue_def)
  then have "b2\<lparr>indentString := ind\<rparr> = b2" by simp
  then show ?thesis using rep same by (simp add: doIndent_def)
next
  case False
  then have b1: "b1 = b" and ind: "ind = indentString b"
    using assms(1) by (auto simp: doIndent_def)
  have same: "indent b2 = indent b" "indentValue b2 = indentValue b" "indentString b2 = indentString b"
    using assms(2-5) b1 by (simp_all add: indentValue_def)
  then show ?thesis using False ind by (simp add: doIndent_def)
qed

lemma doIndent_p_stable:
  assumes "doIndent_p b = Ok (ind, b1)"
    and "elements_p b2 = elements_p b1" "offset_p b2 = offset_p b1" "indent_p b2 = indent_p b1"
    and "indentString_p b2 = indentString_p b1" "pretty_p b2 = pretty_p b1"
  shows "doIndent_p b2 = Ok (ind, b2)"
proof (cases "pretty_p b")
  case False
  then have "b1 = b" "ind = []" using assms(1) by (auto simp: doIndent_p_def)
  then show ?thesis using False assms(6) by (simp add: doIndent_p_def)
next
  case pretty: True
  show ?thesis
  proof (cases "int (length (indentString_p b)) \<noteq> wrap64 (int (length (indent_p b)) * indentValue_p b)")
    case True
    then have rep: "Repeat (indent_p b) (indentValue_p b) = Inr ind"
      and b1: "b1 = b\<lparr>indentString_p := ind\<rparr>"
      using assms(1) pretty by (auto simp: doIndent_p_def split: sum.splits)
    have same: "indent_p b2 = indent_p b" "indentValue_p b2 = indentValue_p b"
      "indentString_p b2 = ind" "pretty_p b2"
      using assms(2-6) b1 pretty by (simp_all add: indentValue_p_def)
    then have "b2\<lparr>indentString_p := ind\<rparr> = b2" by simp
    then show ?thesis using rep same by (simp add: doIndent_p_def)
  next
    case False
    then have b1: "b1 = b" and ind: "ind = indentString_p b"
      using assms(1) pretty by (auto simp: doIndent_p_def)
    have same: "indent_p b2 = indent_p b" "indentValue_p b2 = indentValue_p b"
      "indentString_p b2 = indentString_p b" "pretty_p b2"
      using assms(2-6) b1 pretty by (simp_all add: indentValue_p_def)
    then show ?thesis using False ind by (simp add: doIndent_p_def)
  qed
qed

lemma attrText_concat:
  "concat (map (attrText m) ks) = attrsText (map (\<lambda>key. (key, lookup m key)) ks)"
  by (induction ks) (simp_all add: attrsText_def attrText_def bindingText_def)

lemma Chars_inline:
  "\<not> buildingElement b \<Longrightarrow> 0 < inline b \<Longrightarrow>
   Chars [v] b = Ok (b\<lparr>writer := writer b @ htmlEscaper (render v)\<rparr>)"
  by (simp add: Chars_def outputElement_def andThen_def Fprint_def)

lemma Chars_block:
  "\<not> buildingElement b \<Longrightarrow> \<not> 0 < inline b \<Longrightarrow> doIndent b = Ok (ind, b1) \<Longrightarrow>
   Chars [v] b = Ok (b1\<lparr>writer := writer b @ ind @ indent b @ htmlEscaper (render v) @ newline\<rparr>)"
  by (frule doIndent_Ok) (simp add: Chars_def outputElement_def andThen_def Fprint_def)

lemma Chars_p_plain:
  "\<not> buildingElement_p p \<Longrightarrow> inline_p p \<or> \<not> pretty_p p \<Longrightarrow>
   Chars_p ord v p = Ok (p\<lparr>writer_p := writer_p p @ htmlEscaper (render v)\<rparr>)"
  by (auto simp: Chars_p_def outputElement_p_def andThen_def Fprint_p_def s_p_def)

lemma Chars_p_block:
  "\<not> buildingElement_p p \<Longrightarrow> \<not> inline_p p \<Longrightarrow> pretty_p p \<Longrightarrow> doIndent_p p = Ok (ind, p1) \<Longrightarrow>
   Chars_p ord v p = Ok (p1\<lparr>writer_p := writer_p p @ ind @ indent_p p @ htmlEscaper (render v) @ newline\<rparr>)"
  by (frule doIndent_p_Ok) (auto simp: Chars_p_def outputElement_p_def andThen_def Fprint_p_def s_p_def)

lemma Element_Chars_block:
  assumes "\<not> buildingElement b" "inline b = 0"
    and "doIndent (b\<lparr>buildingElement := True, elements := elements b @ [e]\<rparr>) = Ok (ind, b1)"
  shows "written (andThen (Element e [] b) (Chars [v])) =
           writer b @ ind @ ''<'' @ e @ attrsText (pending b) @ ''>'' @ newline
           @ ind @ indent b @ htmlEscaper (render v) @ newline"
proof -
  let ?b = "b\<lparr>buildingElement := True, elements := elements b @ [e]\<rparr>"
  let ?f = "b1\<lparr>attributes := Map.empty, attrnames := [],
               writer := writer b @ ind @ ''<'' @ e @ attrsText (pending b) @ ''>'' @ newline,
               buildingElement := False\<rparr>"
  have b1: "b1 = ?b\<lparr>indentString := ind\<rparr>" using assms(3) by (rule doIndent_Ok)
  have flush: "outputElement False ?b = Ok ?f"
    using assms(2,3) b1
    by (simp add: outputElement_def andThen_def Let_def attrText_concat pending_def)
  have again: "doIndent ?f = Ok (ind, ?f)"
    by (rule doIndent_stable [OF assms(3)]) simp_all
  have "Chars [v] ?b = Ok (?f\<lparr>writer := writer ?f @ ind @ indent ?f @ htmlEscaper (render v) @ newline\<rparr>)"
    using assms(2) flush again b1
    by (simp add: Chars_def andThen_def Fprint_def)
  then show ?thesis
    using assms(1) b1 by (simp add: Element_no_args andThen_def written_def stateOf_def)
qed

lemma Element_p_Chars_p_block:
  assumes "\<not> buildingElement_p p" "\<not> inline_p p" "pretty_p p"
    and "doIndent_p (p\<lparr>buildingElement_p := True, elements_p := elements_p p @ [e]\<rparr>) = Ok (ind, p1)"
  shows "written_p (andThen (Element_p ord1 ord2 e [] p) (Chars_p ord v)) =
           writer_p p @ ind @ ''<'' @ e
           @ attrsText (filter nonEmptyBinding (visited (attributes_p p) ord)) @ ''>'' @ newline
           @ ind @ indent_p p @ htmlEscaper (render v) @ newline"
proof -
  let ?b = "p\<lparr>buildingElement_p := True, elements_p := elements_p p @ [e]\<rparr>"
  let ?f = "p1\<lparr>attributes_p := Map.empty,
               writer_p := writer_p p @ ind @ ''<'' @ e
                 @ attrsText (filter nonEmptyBinding (visited (attributes_p p) ord)) @ ''>'' @ newline,
               buildingElement_p := False\<rparr>"
  have p1: "p1 = ?b\<lparr>indentString_p := ind\<rparr>"
    using assms(3,4) by (auto simp: doIndent_p_def split: if_splits sum.splits)
  have flush: "outputElement_p ord False True ?b = Ok ?f"
    using assms(4) p1
    by (simp add: outputElement_p_def andThen_def Let_def attrText_p_filter)
  have again: "doIndent_p ?f = Ok (ind, ?f)"
    by (rule doIndent_p_stable [OF assms(4)]) simp_all
  have "Chars_p ord v ?b
        = Ok (?f\<lparr>writer_p := writer_p ?f @ ind @ indent_p ?f @ htmlEscaper (render v) @ newline\<rparr>)"
    using assms(2,3) flush again p1
    by (simp add: Chars_p_def andThen_def Fprint_p_def s_p_def)
  then show ?thesis
    using assms(1) p1 by (simp add: Element_p_def andThen_def written_p_def stateOf_def)
qed


text \<open>
  C7.  \<open>Chars\<close> replaces exactly the three bytes \<open>&\<close>, \<open><\<close> and \<open>>\<close>, each on its own, and
  leaves every other byte, quotes included, as it is.  Outside an inline region (and, in
  \<open>builder.go\<close>, with \<open>pretty\<close> on) the text goes out as the indentation of the
  enclosing element, one more indent unit, the escaped text and a newline: written right
  after \<open>Element\<close>, it stands one unit deeper than the start tag it follows.  Inside an
  inline region, or with \<open>pretty\<close> off, the escaped text alone is appended.
\<close>

theorem Chars_escapes_and_layout:
  "htmlEscaper (x @ y) = htmlEscaper x @ htmlEscaper y
   \<and> htmlEscaper [c] =
       (if c = CHR ''&'' then ''&amp;'' else if c = CHR ''<'' then ''&lt;''
        else if c = CHR ''>'' then ''&gt;'' else [c])
   \<and> ((htmlEscaper [c] = [c]) = (c \<notin> {CHR ''&'', CHR ''<'', CHR ''>''}))
   \<and> (\<not> buildingElement b \<longrightarrow> 0 < inline b \<longrightarrow>
        Chars [v] b = Ok (b\<lparr>writer := writer b @ htmlEscaper (render v)\<rparr>))
   \<and> (\<not> buildingElement b \<longrightarrow> \<not> 0 < inline b \<longrightarrow> doIndent b = Ok (ind, b1) \<longrightarrow>
        Chars [v] b
          = Ok (b1\<lparr>writer := writer b @ ind @ indent b @ htmlEscaper (render v) @ newline\<rparr>))
   \<and> (\<not> buildingElement b \<longrightarrow> inline b = 0 \<longrightarrow>
        doIndent (b\<lparr>buildingElement := True, elements := elements b @ [e]\<rparr>) = Ok (ind2, b2) \<longrightarrow>
        written (andThen (Element e [] b) (Chars [v])) =
          writer b @ ind2 @ ''<'' @ e @ attrsText (pending b) @ ''>'' @ newline
          @ ind2 @ indent b @ htmlEscaper (render v) @ newline)
   \<and> (\<not> buildingElement_p p \<longrightarrow> inline_p p \<or> \<not> pretty_p p \<longrightarrow>
        Chars_p ord v p = Ok (p\<lparr>writer_p := writer_p p @ htmlEscaper (render v)\<rparr>))
   \<and> (\<not> buildingElement_p p \<longrightarrow> \<not> inline_p p \<longrightarrow> pretty_p p \<longrightarrow> doIndent_p p = Ok (ind3, p1) \<longrightarrow>
        Chars_p ord v p
          = Ok (p1\<lparr>writer_p := writer_p p @ ind3 @ indent_p p @ htmlEscaper (render v) @ newline\<rparr>))
   \<and> (\<not> buildingElement_p p \<longrightarrow> \<not> inline_p p \<longrightarrow> pretty_p p \<longrightarrow>
        doIndent_p (p\<lparr>buildingElement_p := True, elements_p := elements_p p @ [e]\<rparr>) = Ok (ind4, p2) \<longrightarrow>
        written_p (andThen (Element_p ord1 ord2 e [] p) (Chars_p ord v)) =
          writer_p p @ ind4 @ ''<'' @ e
          @ attrsText (filter nonEmptyBinding (visited (attributes_p p) ord)) @ ''>'' @ newline
          @ ind4 @ indent_p p @ htmlEscaper (render v) @ newline)"
  apply (intro conjI impI)
          apply (rule htmlEscaper_append)
         apply (rule htmlEscaper_single)
        apply (rule htmlEscaper_changes)
       apply (erule (1) Chars_inline)
      apply (erule (2) Chars_block)
     apply (erule (2) Element_Chars_block)
    apply (erule (1) Chars_p_plain)
   apply (erule (3) Chars_p_block)
  apply (erule (3) Element_p_Chars_p_block)
  done

theorem Chars_escapes_and_layout_witness:
  "\<not> buildingElement (inRoot\<lparr>inline := 1\<rparr>) \<and> 0 < inline (inRoot\<lparr>inline := 1\<rparr>)
   \<and> written (Chars [Str (''a<b&c>'' @ dquote)] (inRoot\<lparr>inline := 1\<rparr>)) = ''a&lt;b&amp;c&gt;'' @ dquote
   \<and> \<not> buildingElement inRoot \<and> \<not> 0 < inline inRoot \<and> doIndent inRoot = Ok ([], inRoot)
   \<and> written (Chars [Str ''a<b''] inRoot) = ''  a&lt;b'' @ newline
   \<and> \<not> buildingElement New \<and> inline New = 0
   \<and> written (andThen (Element ''root'' [] New) (Chars [Str ''a<b'']))
       = ''<root>'' @ newline @ ''  a&lt;b'' @ newline
   \<and> \<not> buildingElement_p (inRoot_p\<lparr>pretty_p := False\<rparr>)
   \<and> written_p (Chars_p [] (Str ''a<b'') (inRoot_p\<lparr>pretty_p := False\<rparr>)) = ''a&lt;b''
   \<and> \<not> buildingElement_p inRoot_p \<and> \<not> inline_p inRoot_p \<and> pretty_p inRoot_p
   \<and> doIndent_p inRoot_p = Ok ([], inRoot_p)
   \<and> written_p (Chars_p [] (Str ''a<b'') inRoot_p) = ''  a&lt;b'' @ newline
   \<and> \<not> buildingElement_p New_p \<and> \<not> inline_p New_p \<and> pretty_p New_p
   \<and> written_p (andThen (Element_p [] [] ''root'' [] New_p) (Chars_p [] (Str ''a<b'')))
       = ''<root>'' @ newline @ ''  a&lt;b'' @ newline"
proof -
  let ?New1 = "New\<lparr>buildingElement := True, elements := elements New @ [''root'']\<rparr>"
  let ?New1p = "New_p\<lparr>buildingElement_p := True, elements_p := elements_p New_p @ [''root'']\<rparr>"
  have h1: "\<not> buildingElement (inRoot\<lparr>inline := 1\<rparr>)" "0 < inline (inRoot\<lparr>inline := 1\<rparr>)"
    by (simp_all add: inRoot_def New_def)
  have h2: "\<not> buildingElement inRoot" "\<not> 0 < inline inRoot" "doIndent inRoot = Ok ([], inRoot)"
    by (simp_all add: inRoot_def New_def doIndent_def indentValue_def)
  have h3: "\<not> buildingElement New" "inline New = 0" "doIndent ?New1 = Ok ([], ?New1)"
    by (simp_all add: New_def doIndent_def indentValue_def)
  have h4: "\<not> buildingElement_p (inRoot_p\<lparr>pretty_p := False\<rparr>)"
    "inline_p (inRoot_p\<lparr>pretty_p := False\<rparr>) \<or> \<not> pretty_p (inRoot_p\<lparr>pretty_p := False\<rparr>)"
    by (simp_all add: inRoot_p_def New_p_def)
  have h5: "\<not> buildingElement_p inRoot_p" "\<not> inline_p inRoot_p" "pretty_p inRoot_p"
    "doIndent_p inRoot_p = Ok ([], inRoot_p)"
    by (simp_all add: inRoot_p_def New_p_def doIndent_p_def indentValue_p_def)
  have h6: "\<not> buildingElement_p New_p" "\<not> inline_p New_p" "pretty_p New_p"
    "doIndent_p ?New1p = Ok ([], ?New1p)"
    by (simp_all add: New_p_def doIndent_p_def indentValue_p_def)
  have esc: "htmlEscaper (''a<b&c>'' @ dquote) = ''a&lt;b&amp;c&gt;'' @ dquote"
    "htmlEscaper ''a<b'' = ''a&lt;b''"
    by (simp_all add: htmlEscaper_def htmlEscapeByte_def dquote_def)
  have A: "written (Chars [Str (''a<b&c>'' @ dquote)] (inRoot\<lparr>inline := 1\<rparr>)) = ''a&lt;b&amp;c&gt;'' @ dquote"
    using Chars_escapes_and_layout [of _ _ _ "inRoot\<lparr>inline := 1\<rparr>" "Str (''a<b&c>'' @ dquote)",
        THEN conjunct2, THEN conjunct2, THEN conjunct2, THEN conjunct1, THEN mp, THEN mp, OF h1] esc
    by (simp add: written_def stateOf_def inRoot_def New_def)
  have B: "written (Chars [Str ''a<b''] inRoot) = ''  a&lt;b'' @ newline"
    using Chars_escapes_and_layout [of _ _ _ inRoot "Str ''a<b''" "[]" inRoot,
        THEN conjunct2, THEN conjunct2, THEN conjunct2, THEN conjunct2, THEN conjunct1,
        THEN mp, THEN mp, THEN mp, OF h2] esc
    by (simp add: written_def stateOf_def inRoot_def New_def)
  have C: "written (andThen (Element ''root'' [] New) (Chars [Str ''a<b'']))
       = ''<root>'' @ newline @ ''  a&lt;b'' @ newline"
    using Chars_escapes_and_layout [of _ _ _ New "Str ''a<b''" _ _ "''root''" "[]" ?New1,
        THEN conjunct2, THEN conjunct2, THEN conjunct2, THEN conjunct2, THEN conjunct2, THEN conjunct1,
        THEN mp, THEN mp, THEN mp, OF h3] esc
    by (simp add: New_def pending_def attrsText_def)
  have D: "written_p (Chars_p [] (Str ''a<b'') (inRoot_p\<lparr>pretty_p := False\<rparr>)) = ''a&lt;b''"
    using Chars_escapes_and_layout [of _ _ _ _ "Str ''a<b''" _ _ _ _ _ "inRoot_p\<lparr>pretty_p := False\<rparr>" "[]",
        THEN conjunct2, THEN conjunct2, THEN conjunct2, THEN conjunct2, THEN conjunct2, THEN conjunct2,
        THEN conjunct1, THEN mp, THEN mp, OF h4] esc
    by (simp add: written_p_def stateOf_def inRoot_p_def New_p_def)
  have E: "written_p (Chars_p [] (Str ''a<b'') inRoot_p) = ''  a&lt;b'' @ newline"
    using Chars_escapes_and_layout [of _ _ _ _ "Str ''a<b''" _ _ _ _ _ inRoot_p "[]" "[]" inRoot_p,
        THEN conjunct2, THEN conjunct2, THEN conjunct2, THEN conjunct2, THEN conjunct2, THEN conjunct2,
        THEN conjunct2, THEN conjunct1, THEN mp, THEN mp, THEN mp, THEN mp, OF h5] esc
    by (simp add: written_p_def stateOf_def inRoot_p_def New_p_def)
  have F: "written_p (andThen (Element_p [] [] ''root'' [] New_p) (Chars_p [] (Str ''a<b'')))
       = ''<root>'' @ newline @ ''  a&lt;b'' @ newline"
    using Chars_escapes_and_layout [of _ _ _ _ "Str ''a<b''" _ _ "''root''" _ _ New_p "[]" _ _ "[]" ?New1p "[]" "[]",
        THEN conjunct2, THEN conjunct2, THEN conjunct2, THEN conjunct2, THEN conjunct2, THEN conjunct2,
        THEN conjunct2, THEN conjunct2, THEN mp, THEN mp, THEN mp, THEN mp, OF h6] esc
    by (simp add: New_p_def visited_def attrsText_def)
  show ?thesis using h1 h2 h3 h4 h5 h6 A B C D E F by simp
qed

section \<open>Indentation\<close>



lemma wrap64_id: "- (2 ^ 63) \<le> x \<Longrightarrow> x < 2 ^ 63 \<Longrightarrow> wrap64 x = x"
  by (simp add: wrap64_def)






section \<open>Configuration mutators\<close>

lemma wrap64_add_left: "wrap64 (wrap64 a + d) = wrap64 (a + d)"
proof -
  have e1: "wrap64 a + d + 2 ^ 63 = (a + 2 ^ 63) mod 2 ^ 64 + d"
    by (simp add: wrap64_def)
  have e2: "a + 2 ^ 63 + d = a + d + 2 ^ 63" by simp
  have "(wrap64 a + d + 2 ^ 63) mod 2 ^ 64 = ((a + 2 ^ 63) mod 2 ^ 64 + d) mod 2 ^ 64"
    by (simp only: e1)
  also have "\<dots> = (a + 2 ^ 63 + d) mod 2 ^ 64"
    by (rule mod_add_left_eq)
  finally have "(wrap64 a + d + 2 ^ 63) mod 2 ^ 64 = (a + d + 2 ^ 63) mod 2 ^ 64"
    by (simp only: e2)
  then show ?thesis
    unfolding wrap64_def [of "wrap64 a + d"] wrap64_def [of "a + d"] by simp
qed

lemma wrap64_add_right: "wrap64 (a + wrap64 d) = wrap64 (a + d)"
  using wrap64_add_left [of d a] by (simp add: add.commute)

lemma wrap64_eq_iff: "wrap64 x = wrap64 y \<longleftrightarrow> (x - y) mod 2 ^ 64 = 0"
proof -
  have "wrap64 x = wrap64 y \<longleftrightarrow> (x + 2 ^ 63) mod 2 ^ 64 = (y + 2 ^ 63) mod 2 ^ 64"
    by (simp add: wrap64_def)
  also have "\<dots> \<longleftrightarrow> ((x + 2 ^ 63) - (y + 2 ^ 63)) mod 2 ^ 64 = 0"
    by (metis mod_eq_dvd_iff mod_0_imp_dvd dvd_imp_mod_0)
  finally show ?thesis by simp
qed

lemma twice_offset_same:
  assumes "- (2 ^ 63) \<le> d" "d < 2 ^ 63"
  shows "wrap64 (wrap64 (a + d) + d) = wrap64 (a + d) \<longleftrightarrow> d = 0"
proof -
  have "wrap64 (wrap64 (a + d) + d) = wrap64 (a + d) \<longleftrightarrow> wrap64 (a + d + d) = wrap64 (a + d)"
    by (simp add: wrap64_add_left)
  also have "\<dots> \<longleftrightarrow> d mod 2 ^ 64 = 0"
    by (simp add: wrap64_eq_iff)
  also have "\<dots> \<longleftrightarrow> d = 0"
    using assms by (auto simp: zmod_eq_0_iff)
  finally show ?thesis .
qed

lemma offset_update_eq: "b\<lparr>offset := x\<rparr> = b\<lparr>offset := y\<rparr> \<longleftrightarrow> x = y"
  by (metis Builder.select_convs(8) Builder.surjective Builder.update_convs(8))

lemma offset_p_update_eq: "b\<lparr>offset_p := x\<rparr> = b\<lparr>offset_p := y\<rparr> \<longleftrightarrow> x = y"
  by (metis PBuilder.select_convs(7) PBuilder.surjective PBuilder.update_convs(7))

text \<open>
  C9, as amended.  \<open>Indent\<close>, \<open>Empty\<close> and (in \<open>builder.go\<close>) \<open>Pretty\<close> are idempotent setters.
  \<open>Offset\<close> is not: it adds its argument to the offset, so two calls with the same
  argument are one call with the doubled argument, and are the same as one call only
  for the argument zero.  Each of the four changes its own field alone and leaves the
  sink as it is; the output that follows reads the new value: the computed indentation
  count moves by the delta, \<open>Pretty(false)\<close> empties the indentation, \<open>Empty\<close> picks the
  end of the tag that \<open>End\<close> writes for a pending element, and \<open>Chars\<close> puts the new
  indent unit before its text.
\<close>

theorem setters_and_Offset:
  "Indent x (Indent x b) = Indent x b \<and> Empty u (Empty u b) = Empty u b
   \<and> Indent_p x (Indent_p x p) = Indent_p x p \<and> Pretty_p u (Pretty_p u p) = Pretty_p u p
   \<and> Offset d (Offset d b) = Offset (wrap64 (d + d)) b
   \<and> Offset_p d (Offset_p d p) = Offset_p (wrap64 (d + d)) p
   \<and> (- (2 ^ 63) \<le> d \<longrightarrow> d < 2 ^ 63 \<longrightarrow>
        (Offset d (Offset d b) = Offset d b) = (d = 0)
        \<and> (Offset_p d (Offset_p d p) = Offset_p d p) = (d = 0))
   \<and> Indent x b = b\<lparr>indent := x\<rparr> \<and> Empty u b = b\<lparr>emptyElements := u\<rparr>
   \<and> Offset d b = b\<lparr>offset := wrap64 (offset b + d)\<rparr>
   \<and> Indent_p x p = p\<lparr>indent_p := x\<rparr> \<and> Pretty_p u p = p\<lparr>pretty_p := u\<rparr>
   \<and> Offset_p d p = p\<lparr>offset_p := wrap64 (offset_p p + d)\<rparr>
   \<and> writer (Indent x b) = writer b \<and> writer (Empty u b) = writer b \<and> writer (Offset d b) = writer b
   \<and> writer_p (Indent_p x p) = writer_p p \<and> writer_p (Pretty_p u p) = writer_p p
   \<and> writer_p (Offset_p d p) = writer_p p
   \<and> indentValue (Offset d b) = wrap64 (indentValue b + d)
   \<and> indentValue_p (Offset_p d p) = wrap64 (indentValue_p p + d)
   \<and> doIndent_p (Pretty_p False p) = Ok ([], Pretty_p False p)
   \<and> (buildingElement b \<longrightarrow> elements b \<noteq> [] \<longrightarrow> inline b \<noteq> 0 \<longrightarrow>
        written (End (Empty u b)) =
          writer b @ ''<'' @ last (elements b) @ attrsText (pending b)
          @ (if u then '' />'' else ''>''))
   \<and> (\<not> buildingElement b \<longrightarrow> \<not> 0 < inline b \<longrightarrow> doIndent (Indent x b) = Ok (ind, b1) \<longrightarrow>
        written (Chars [v] (Indent x b)) = writer b @ ind @ x @ htmlEscaper (render v) @ newline)"
proof -
  have twice: "Offset d (Offset d b) = Offset (wrap64 (d + d)) b"
    "Offset_p d (Offset_p d p) = Offset_p (wrap64 (d + d)) p"
    by (simp_all add: Offset_def Offset_p_def wrap64_add_left wrap64_add_right add.assoc)
  have same: "- (2 ^ 63) \<le> d \<longrightarrow> d < 2 ^ 63 \<longrightarrow>
        (Offset d (Offset d b) = Offset d b) = (d = 0)
        \<and> (Offset_p d (Offset_p d p) = Offset_p d p) = (d = 0)"
    by (simp add: Offset_def Offset_p_def offset_update_eq offset_p_update_eq twice_offset_same)
  have shift: "wrap64 (wrap64 (n + wrap64 (k + d)) - 1) = wrap64 (wrap64 (wrap64 (n + k) - 1) + d)"
    for n k :: int
  proof -
    have "wrap64 (wrap64 (n + wrap64 (k + d)) - 1) = wrap64 (n + (k + d) + (- 1))"
      using wrap64_add_left [of "n + wrap64 (k + d)" "- 1"] wrap64_add_right [of n "k + d"]
        wrap64_add_left [of "n + (k + d)" "- 1"]
      by simp
    moreover have "wrap64 (wrap64 (wrap64 (n + k) - 1) + d) = wrap64 (n + k + (- 1) + d)"
      using wrap64_add_left [of "wrap64 (n + k) - 1" d] wrap64_add_left [of "n + k" "- 1"]
        wrap64_add_left [of "n + k + (- 1)" d]
      by simp
    ultimately show ?thesis by (simp add: algebra_simps)
  qed
  have eff: "indentValue (Offset d b) = wrap64 (indentValue b + d)"
    "indentValue_p (Offset_p d p) = wrap64 (indentValue_p p + d)"
    by (simp_all add: indentValue_def Offset_def indentValue_p_def Offset_p_def shift)
  have pr: "doIndent_p (Pretty_p False p) = Ok ([], Pretty_p False p)"
    by (simp add: doIndent_p_def Pretty_p_def)
  have em: "buildingElement b \<longrightarrow> elements b \<noteq> [] \<longrightarrow> inline b \<noteq> 0 \<longrightarrow>
        written (End (Empty u b)) =
          writer b @ ''<'' @ last (elements b) @ attrsText (pending b)
          @ (if u then '' />'' else ''>'')"
    by (simp add: End_def Empty_def outputElement_def andThen_def Let_def written_def stateOf_def
        attrText_concat pending_def)
  have ind: "\<not> buildingElement b \<longrightarrow> \<not> 0 < inline b \<longrightarrow> doIndent (Indent x b) = Ok (ind, b1) \<longrightarrow>
        written (Chars [v] (Indent x b)) = writer b @ ind @ x @ htmlEscaper (render v) @ newline"
  proof (intro impI)
    assume "\<not> buildingElement b" "\<not> 0 < inline b" "doIndent (Indent x b) = Ok (ind, b1)"
    then show "written (Chars [v] (Indent x b)) = writer b @ ind @ x @ htmlEscaper (render v) @ newline"
      using Chars_block [of "Indent x b" ind b1 v]
      by (simp add: Indent_def written_def stateOf_def)
  qed
  show ?thesis
    using twice same eff pr em ind
    by (simp add: Indent_def Empty_def Indent_p_def Pretty_p_def Offset_def Offset_p_def)
qed

theorem setters_and_Offset_witness:
  "- (2 ^ 63) \<le> (1::int) \<and> (1::int) < 2 ^ 63
   \<and> Offset 1 (Offset 1 New) \<noteq> Offset 1 New \<and> Offset_p 1 (Offset_p 1 New_p) \<noteq> Offset_p 1 New_p
   \<and> Offset 1 (Offset 1 New) = Offset 2 New
   \<and> buildingElement (person\<lparr>inline := 1\<rparr>) \<and> elements (person\<lparr>inline := 1\<rparr>) \<noteq> []
   \<and> inline (person\<lparr>inline := 1\<rparr>) \<noteq> 0
   \<and> written (End (Empty False (person\<lparr>inline := 1\<rparr>))) = ''<person>''
   \<and> \<not> buildingElement inRoot \<and> \<not> 0 < inline inRoot
   \<and> doIndent (Indent ''--'' inRoot) = Ok ([], Indent ''--'' inRoot)
   \<and> written (Chars [Str ''x''] (Indent ''--'' inRoot)) = ''--x'' @ newline"
proof -
  have h: "- (2 ^ 63) \<le> (1::int)" "(1::int) < 2 ^ 63" by simp_all
  have hp: "buildingElement (person\<lparr>inline := 1\<rparr>)" "elements (person\<lparr>inline := 1\<rparr>) \<noteq> []"
    "inline (person\<lparr>inline := 1\<rparr>) \<noteq> 0"
    by (simp_all add: person_def New_def)
  have hr: "\<not> buildingElement inRoot" "\<not> 0 < inline inRoot"
    "doIndent (Indent ''--'' inRoot) = Ok ([], Indent ''--'' inRoot)"
    by (simp_all add: inRoot_def New_def Indent_def doIndent_def indentValue_def)
  note inst = setters_and_Offset [of "[]" New True New_p 1 "[]" New "Str []"]
  note instp = setters_and_Offset [of "[]" "person\<lparr>inline := 1\<rparr>" False New_p 1 "[]" New "Str []"]
  note instr = setters_and_Offset [of "''--''" inRoot False New_p 1 "[]" "Indent ''--'' inRoot" "Str ''x''"]
  have A: "(Offset 1 (Offset 1 New) = Offset 1 New) = ((1::int) = 0)
           \<and> (Offset_p 1 (Offset_p 1 New_p) = Offset_p 1 New_p) = ((1::int) = 0)"
    using inst [THEN conjunct2, THEN conjunct2, THEN conjunct2, THEN conjunct2, THEN conjunct2,
        THEN conjunct2, THEN conjunct1, THEN mp, THEN mp, OF h] .
  have B: "Offset 1 (Offset 1 New) = Offset (wrap64 (1 + 1)) New"
    using inst [THEN conjunct2, THEN conjunct2, THEN conjunct2, THEN conjunct2, THEN conjunct1] .
  have tail: "P1 \<and> P2 \<and> P3 \<and> P4 \<and> P5 \<and> P6 \<and> P7 \<and> P8 \<and> P9 \<and> P10 \<and> P11 \<and> P12 \<and> P13
              \<and> P14 \<and> P15 \<and> P16 \<and> P17 \<and> P18 \<and> P19 \<and> P20 \<and> P21 \<and> P22 \<and> Q \<and> R \<Longrightarrow> Q \<and> R"
    for P1 P2 P3 P4 P5 P6 P7 P8 P9 P10 P11 P12 P13 P14 P15 P16 P17 P18 P19 P20 P21 P22 Q R
    by blast
  have C: "written (End (Empty False (person\<lparr>inline := 1\<rparr>))) = ''<person>''"
    using tail [OF instp, THEN conjunct1, THEN mp, THEN mp, THEN mp, OF hp]
    by (simp add: person_def New_def pending_def attrsText_def)
  have D: "written (Chars [Str ''x''] (Indent ''--'' inRoot)) = ''--x'' @ newline"
    using tail [OF instr, THEN conjunct2, THEN mp, THEN mp, THEN mp, OF hr]
    by (simp add: inRoot_def New_def htmlEscaper_def htmlEscapeByte_def)
  show ?thesis using h hp hr A B C D by simp
qed

text \<open>
  The claim as worded calls \<open>Offset\<close> an idempotent setter.  On a fresh builder
  \<open>Offset(1)\<close> gives the offset 1 and \<open>Offset(1)\<close> twice gives 2; the element written next
  is indented two spaces in the first case and four in the second.
\<close>

theorem setters_and_Offset_counterexample:
  "offset (Offset 1 New) = 1 \<and> offset (Offset 1 (Offset 1 New)) = 2
   \<and> Offset 1 (Offset 1 New) \<noteq> Offset 1 New
   \<and> offset_p (Offset_p 1 New_p) = 1 \<and> offset_p (Offset_p 1 (Offset_p 1 New_p)) = 2
   \<and> Offset_p 1 (Offset_p 1 New_p) \<noteq> Offset_p 1 New_p
   \<and> written (run [COffset 1, CElement ''a'' [], CEnd] New) = ''  <a />'' @ newline
   \<and> written (run [COffset 1, COffset 1, CElement ''a'' [], CEnd] New) = ''    <a />'' @ newline"
  by (simp add: Offset_def New_def Offset_p_def New_p_def andThen_def Element_def End_def
      outputElement_def doIndent_def indentValue_def Repeat_def Let_def written_def stateOf_def
      maxInt_def numeral_2_eq_2 wrap64_def)

section \<open>Nested inline regions\<close>

lemma mapState_simps [simp]:
  "mapState g (Ok x) = Ok (g x)" "mapState g (Panic e x) = Panic e (g x)"
  by (simp_all add: mapState_def)

lemma stateOf_simps [simp]: "stateOf (Ok x) = x" "stateOf (Panic e x) = x"
  by (simp_all add: stateOf_def)

lemma andThen_simps [simp]: "andThen (Ok a) f = f a" "andThen (Panic e x) f = Panic e x"
  by (simp_all add: andThen_def)

lemma andThen_mapState:
  assumes "\<And>x. r = Ok x \<Longrightarrow> f (g x) = mapState g (f' x)"
  shows "andThen (mapState g r) f = mapState g (andThen r f')"
  using assms by (cases r) simp_all

lemma setInline_fields [simp]:
  "inline (setInline k b) = k" "writer (setInline k b) = writer b"
  "buildingElement (setInline k b) = buildingElement b" "elements (setInline k b) = elements b"
  "attributes (setInline k b) = attributes b" "attrnames (setInline k b) = attrnames b"
  "indent (setInline k b) = indent b" "offset (setInline k b) = offset b"
  "emptyElements (setInline k b) = emptyElements b" "indentString (setInline k b) = indentString b"
  by (simp_all add: setInline_def)

text \<open>Inside an inline region no operation looks at the value of the counter.\<close>

lemma outputElement_setInline:
  "0 < inline b \<Longrightarrow> 0 < k \<Longrightarrow>
   outputElement close (setInline k b) = mapState (setInline k) (outputElement close b)"
  by (simp add: outputElement_def Let_def setInline_def)

lemma outputElement_keeps_inline:
  "0 < inline b \<Longrightarrow> inline (stateOf (outputElement close b)) = inline b"
  by (simp add: outputElement_def Let_def)

lemma outputElement_Ok_inline:
  "0 < inline b \<Longrightarrow> outputElement close b = Ok x \<Longrightarrow> inline x = inline b"
  using outputElement_keeps_inline [of b close] by simp

lemma Chars_setInline:
  assumes "0 < inline b" "0 < k"
  shows "Chars cs (setInline k b) = mapState (setInline k) (Chars cs b)"
  unfolding Chars_def outputElement_setInline [OF assms]
  by (rule andThen_mapState)
    (use assms in \<open>simp add: outputElement_Ok_inline Fprint_def setInline_def\<close>)

lemma Chars_keeps_inline:
  assumes "0 < inline b"
  shows "inline (stateOf (Chars cs b)) = inline b"
  using assms outputElement_keeps_inline [OF assms, of False]
  by (cases "outputElement False b") (simp_all add: Chars_def Fprint_def)

lemma CharsNoEscape_setInline:
  assumes "0 < inline b" "0 < k"
  shows "CharsNoEscape cs (setInline k b) = mapState (setInline k) (CharsNoEscape cs b)"
  unfolding CharsNoEscape_def outputElement_setInline [OF assms]
  by (rule andThen_mapState)
    (use assms in \<open>simp add: outputElement_Ok_inline Fprint_def setInline_def\<close>)

lemma CharsNoEscape_keeps_inline:
  assumes "0 < inline b"
  shows "inline (stateOf (CharsNoEscape cs b)) = inline b"
  using assms outputElement_keeps_inline [OF assms, of False]
  by (cases "outputElement False b") (simp_all add: CharsNoEscape_def Fprint_def)

lemma Cdata_setInline:
  assumes "0 < inline b" "0 < k"
  shows "Cdata cs (setInline k b) = mapState (setInline k) (Cdata cs b)"
  unfolding Cdata_def outputElement_setInline [OF assms]
  by (rule andThen_mapState)
    (use assms in \<open>simp add: outputElement_Ok_inline Fprint_def setInline_def\<close>)

lemma Cdata_keeps_inline:
  assumes "0 < inline b"
  shows "inline (stateOf (Cdata cs b)) = inline b"
  using assms outputElement_keeps_inline [OF assms, of False]
  by (cases "outputElement False b") (simp_all add: Cdata_def Fprint_def)

lemma End_setInline:
  "0 < inline b \<Longrightarrow> 0 < k \<Longrightarrow> End (setInline k b) = mapState (setInline k) (End b)"
  by (simp add: End_def outputElement_setInline Fprint_def Let_def)

lemma End_keeps_inline: "0 < inline b \<Longrightarrow> inline (stateOf (End b)) = inline b"
  by (simp add: End_def outputElement_keeps_inline Fprint_def Let_def)

lemma Attr_setInline: "Attr n v (setInline k b) = setInline k (Attr n v b)"
  by (simp add: Attr_def Let_def setInline_def)

lemma attrCalls_setInline: "attrCalls cs (setInline k b) = setInline k (attrCalls cs b)"
proof (induction cs rule: rev_induct)
  case Nil
  then show ?case by (simp add: attrCalls_def)
next
  case (snoc c cs)
  obtain n v where c: "c = (n, v)" by (cases c)
  show ?case using snoc.IH by (simp add: c attrCalls_snoc Attr_setInline)
qed

lemma attrPairs_setInline: "attrPairs args (setInline k b) = setInline k (attrPairs args b)"
  by (simp add: attrPairs_kept attrCalls_setInline)

lemma attrPairs_inline: "inline (attrPairs args b) = inline b"
  by (simp add: attrPairs_kept attrCalls_fields)

lemma Element_setInline:
  assumes "0 < inline b" "0 < k"
  shows "Element e args (setInline k b) = mapState (setInline k) (Element e args b)"
proof -
  let ?open = "\<lambda>b1. let b2 = b1\<lparr>buildingElement := True, elements := elements b1 @ [e]\<rparr>;
           first = length args mod 2;
           b3 = attrPairs (drop first args) b2
       in if first \<noteq> 0 then Chars [hd args] b3 else Ok b3"
  have step: "?open (setInline k x) = mapState (setInline k) (?open x)" if "inline x = inline b" for x
  proof -
    have eq: "(setInline k x)\<lparr>buildingElement := True, elements := elements (setInline k x) @ [e]\<rparr>
              = setInline k (x\<lparr>buildingElement := True, elements := elements x @ [e]\<rparr>)"
      by (simp add: setInline_def)
    have ch: "Chars cs (setInline k (attrPairs ys (x\<lparr>buildingElement := True, elements := elements x @ [e]\<rparr>)))
              = mapState (setInline k)
                  (Chars cs (attrPairs ys (x\<lparr>buildingElement := True, elements := elements x @ [e]\<rparr>)))"
      for cs ys
      by (rule Chars_setInline) (use that assms in \<open>simp_all add: attrPairs_inline\<close>)
    show ?thesis
      unfolding Let_def eq attrPairs_setInline
      by (simp add: ch)
  qed
  show ?thesis
  proof (cases "buildingElement b")
    case True
    have "Element e args (setInline k b)
          = andThen (mapState (setInline k) (outputElement False b)) ?open"
      using True by (simp add: Element_def outputElement_setInline [OF assms])
    also have "\<dots> = mapState (setInline k) (andThen (outputElement False b) ?open)"
      by (rule andThen_mapState) (use assms in \<open>simp only: step outputElement_Ok_inline\<close>)
    finally show ?thesis using True by (simp add: Element_def)
  next
    case False
    then show ?thesis using step [of b] by (simp add: Element_def)
  qed
qed


lemma ElementNoEscape_setInline:
  assumes "0 < inline b" "0 < k"
  shows "ElementNoEscape e args (setInline k b) = mapState (setInline k) (ElementNoEscape e args b)"
proof -
  let ?open = "\<lambda>b1. let b2 = b1\<lparr>buildingElement := True, elements := elements b1 @ [e]\<rparr>;
           first = length args mod 2;
           b3 = attrPairs (drop first args) b2
       in if first \<noteq> 0 then CharsNoEscape [hd args] b3 else Ok b3"
  have step: "?open (setInline k x) = mapState (setInline k) (?open x)" if "inline x = inline b" for x
  proof -
    have eq: "(setInline k x)\<lparr>buildingElement := True, elements := elements (setInline k x) @ [e]\<rparr>
              = setInline k (x\<lparr>buildingElement := True, elements := elements x @ [e]\<rparr>)"
      by (simp add: setInline_def)
    have ch: "CharsNoEscape cs (setInline k (attrPairs ys (x\<lparr>buildingElement := True, elements := elements x @ [e]\<rparr>)))
              = mapState (setInline k)
                  (CharsNoEscape cs (attrPairs ys (x\<lparr>buildingElement := True, elements := elements x @ [e]\<rparr>)))"
      for cs ys
      by (rule CharsNoEscape_setInline) (use that assms in \<open>simp_all add: attrPairs_inline\<close>)
    show ?thesis
      unfolding Let_def eq attrPairs_setInline
      by (simp add: ch)
  qed
  show ?thesis
  proof (cases "buildingElement b")
    case True
    have "ElementNoEscape e args (setInline k b)
          = andThen (mapState (setInline k) (outputElement False b)) ?open"
      using True by (simp add: ElementNoEscape_def outputElement_setInline [OF assms])
    also have "\<dots> = mapState (setInline k) (andThen (outputElement False b) ?open)"
      by (rule andThen_mapState) (use assms in \<open>simp only: step outputElement_Ok_inline\<close>)
    finally show ?thesis using True by (simp add: ElementNoEscape_def)
  next
    case False
    then show ?thesis using step [of b] by (simp add: ElementNoEscape_def)
  qed
qed

lemma Fprint_setInline: "Fprint x (setInline k y) = setInline k (Fprint x y)"
  by (simp add: Fprint_def setInline_def)

lemma instructPairs_setInline:
  "instructPairs args (setInline k b) = mapState (setInline k) (instructPairs args b)"
  by (induction args b rule: instructPairs.induct) (simp_all add: Fprint_setInline)

lemma Instruct_setInline:
  "Instruct n args (setInline k b) = mapState (setInline k) (Instruct n args b)"
proof -
  show ?thesis
    unfolding Instruct_def
    by (simp add: Fprint_setInline instructPairs_setInline andThen_mapState)
qed

text \<open>What survives a change of the counter keeps the counter.\<close>

lemma keeps_inline:
  assumes "f (setInline (inline b) b) = mapState (setInline (inline b)) (f b)"
  shows "inline (stateOf (f b)) = inline b"
proof -
  have same: "setInline (inline b) b = b" by (simp add: setInline_def)
  have eq: "f b = mapState (setInline (inline b)) (f b)" using assms [unfolded same] .
  show ?thesis
  proof (cases "f b")
    case (Ok x)
    then have "x = setInline (inline b) x" using eq by simp
    then have "inline x = inline b" by (metis setInline_fields(1))
    then show ?thesis using Ok by simp
  next
    case (Panic e x)
    then have "x = setInline (inline b) x" using eq by simp
    then have "inline x = inline b" by (metis setInline_fields(1))
    then show ?thesis using Panic by simp
  qed
qed

lemma deeper_setInline: "inline x = n \<Longrightarrow> deeper x = setInline (n + 1) x"
  by (simp add: deeper_def setInline_def)

lemma mapState_deeper:
  assumes "inline (stateOf r) = n"
  shows "mapState (setInline (n + 1)) r = mapState deeper r"
  using assms by (cases r) (simp_all add: deeper_setInline)

lemma simple_deeper:
  assumes "\<And>k. 0 < k \<Longrightarrow> f (setInline k b) = mapState (setInline k) (f b)" "0 < inline b"
  shows "f (deeper b) = mapState deeper (f b) \<and> inline (stateOf (f b)) = inline b"
proof -
  have keep: "inline (stateOf (f b)) = inline b"
    by (rule keeps_inline) (rule assms(1) [OF assms(2)])
  have "f (deeper b) = mapState (setInline (inline b + 1)) (f b)"
    using assms(1) [of "inline b + 1"] assms(2) by (simp add: deeper_setInline)
  then show ?thesis using keep by (simp add: mapState_deeper)
qed


lemma Inline_inside:
  "1 \<le> inline b \<Longrightarrow> inline b + 1 \<le> maxInt \<Longrightarrow> Inline b = Ok (deeper b)"
  by (simp add: Inline_def deeper_def maxInt_def wrap64_id)

lemma EndInline_inside:
  "2 \<le> inline b \<Longrightarrow> inline b \<le> maxInt \<Longrightarrow> EndInline b = Ok (setInline (inline b - 1) b)"
  by (simp add: EndInline_def Let_def setInline_def maxInt_def wrap64_id)

text \<open>
  Inside an inline region \<open>Tag\<close> is \<open>Element\<close> and \<open>End\<close>; only a panic between the two
  leaves the counter one higher.
\<close>

lemma EndInline_after:
  assumes "1 \<le> n" "n + 1 \<le> maxInt"
  shows "andThen (mapState (setInline (n + 1)) q) EndInline
         = (case q of Ok x \<Rightarrow> Ok (setInline n x) | Panic p x \<Rightarrow> Panic p (setInline (n + 1) x))"
proof (cases q)
  case (Ok x)
  have "EndInline (setInline (n + 1) x) = Ok (setInline n x)"
    using assms EndInline_inside [of "setInline (n + 1) x"] by (simp add: setInline_def)
  then show ?thesis using Ok by simp
next
  case (Panic p x)
  then show ?thesis by simp
qed

lemma Element_End_setInline:
  assumes "0 < inline b" "0 < k"
  shows "andThen (Element e args (setInline k b)) End
         = mapState (setInline k) (andThen (Element e args b) End)"
proof -
  have keep: "inline (stateOf (Element e args b)) = inline b"
    by (rule keeps_inline) (rule Element_setInline [OF assms(1) assms(1)])
  show ?thesis
    unfolding Element_setInline [OF assms]
    by (rule andThen_mapState) (use keep assms in \<open>simp add: End_setInline\<close>)
qed

lemma ElementNoEscape_End_setInline:
  assumes "0 < inline b" "0 < k"
  shows "andThen (ElementNoEscape e args (setInline k b)) End
         = mapState (setInline k) (andThen (ElementNoEscape e args b) End)"
proof -
  have keep: "inline (stateOf (ElementNoEscape e args b)) = inline b"
    by (rule keeps_inline) (rule ElementNoEscape_setInline [OF assms(1) assms(1)])
  show ?thesis
    unfolding ElementNoEscape_setInline [OF assms]
    by (rule andThen_mapState) (use keep assms in \<open>simp add: End_setInline\<close>)
qed

lemma Tag_inside:
  assumes "1 \<le> inline b" "inline b + 1 \<le> maxInt"
  shows "Tag e args b
         = (case andThen (Element e args b) End of
              Ok x \<Rightarrow> Ok (setInline (inline b) x)
            | Panic p x \<Rightarrow> Panic p (setInline (inline b + 1) x))"
proof -
  have "Tag e args b = andThen (andThen (Element e args (deeper b)) End) EndInline"
    by (simp add: Tag_def Inline_inside [OF assms] andThen_assoc)
  also have "deeper b = setInline (inline b + 1) b" by (simp add: deeper_setInline)
  also have "andThen (Element e args (setInline (inline b + 1) b)) End
             = mapState (setInline (inline b + 1)) (andThen (Element e args b) End)"
    by (rule Element_End_setInline) (use assms in simp_all)
  finally show ?thesis using EndInline_after [OF assms] by simp
qed

lemma TagNoEscape_inside:
  assumes "1 \<le> inline b" "inline b + 1 \<le> maxInt"
  shows "TagNoEscape e args b
         = (case andThen (ElementNoEscape e args b) End of
              Ok x \<Rightarrow> Ok (setInline (inline b) x)
            | Panic p x \<Rightarrow> Panic p (setInline (inline b + 1) x))"
proof -
  have "TagNoEscape e args b = andThen (andThen (ElementNoEscape e args (deeper b)) End) EndInline"
    by (simp add: TagNoEscape_def Inline_inside [OF assms] andThen_assoc)
  also have "deeper b = setInline (inline b + 1) b" by (simp add: deeper_setInline)
  also have "andThen (ElementNoEscape e args (setInline (inline b + 1) b)) End
             = mapState (setInline (inline b + 1)) (andThen (ElementNoEscape e args b) End)"
    by (rule ElementNoEscape_End_setInline) (use assms in simp_all)
  finally show ?thesis using EndInline_after [OF assms] by simp
qed

lemma inline_deeper: "inline (deeper b) = inline b + 1"
  by (simp add: deeper_def)

lemma shape_deeper:
  assumes "t = (case q of Ok x \<Rightarrow> Ok (setInline n x) | Panic p x \<Rightarrow> Panic p (setInline (n + 1) x))"
    and "t' = (case mapState (setInline (n + 1)) q of
                 Ok x \<Rightarrow> Ok (setInline (n + 1) x) | Panic p x \<Rightarrow> Panic p (setInline (n + 1 + 1) x))"
  shows "t' = mapState deeper t \<and> (\<forall>x. t = Ok x \<longrightarrow> inline x = n)"
  using assms by (cases q) (simp_all add: deeper_def setInline_def)

lemma Tag_deeper:
  assumes "1 \<le> inline b" "inline b + 2 \<le> maxInt"
  shows "Tag e args (deeper b) = mapState deeper (Tag e args b)
         \<and> (\<forall>x. Tag e args b = Ok x \<longrightarrow> inline x = inline b)"
proof (rule shape_deeper)
  show "Tag e args b
         = (case andThen (Element e args b) End of
              Ok x \<Rightarrow> Ok (setInline (inline b) x)
            | Panic p x \<Rightarrow> Panic p (setInline (inline b + 1) x))"
    by (rule Tag_inside) (use assms in simp_all)
  have "Tag e args (deeper b)
         = (case andThen (Element e args (deeper b)) End of
              Ok x \<Rightarrow> Ok (setInline (inline b + 1) x)
            | Panic p x \<Rightarrow> Panic p (setInline (inline b + 1 + 1) x))"
    using Tag_inside [of "deeper b" e args, unfolded inline_deeper] assms by simp
  moreover have "andThen (Element e args (deeper b)) End
      = mapState (setInline (inline b + 1)) (andThen (Element e args b) End)"
    unfolding deeper_setInline [OF refl]
    by (rule Element_End_setInline) (use assms in simp_all)
  ultimately show "Tag e args (deeper b)
         = (case mapState (setInline (inline b + 1)) (andThen (Element e args b) End) of
              Ok x \<Rightarrow> Ok (setInline (inline b + 1) x)
            | Panic p x \<Rightarrow> Panic p (setInline (inline b + 1 + 1) x))"
    by simp
qed

lemma TagNoEscape_deeper:
  assumes "1 \<le> inline b" "inline b + 2 \<le> maxInt"
  shows "TagNoEscape e args (deeper b) = mapState deeper (TagNoEscape e args b)
         \<and> (\<forall>x. TagNoEscape e args b = Ok x \<longrightarrow> inline x = inline b)"
proof (rule shape_deeper)
  show "TagNoEscape e args b
         = (case andThen (ElementNoEscape e args b) End of
              Ok x \<Rightarrow> Ok (setInline (inline b) x)
            | Panic p x \<Rightarrow> Panic p (setInline (inline b + 1) x))"
    by (rule TagNoEscape_inside) (use assms in simp_all)
  have "TagNoEscape e args (deeper b)
         = (case andThen (ElementNoEscape e args (deeper b)) End of
              Ok x \<Rightarrow> Ok (setInline (inline b + 1) x)
            | Panic p x \<Rightarrow> Panic p (setInline (inline b + 1 + 1) x))"
    using TagNoEscape_inside [of "deeper b" e args, unfolded inline_deeper] assms by simp
  moreover have "andThen (ElementNoEscape e args (deeper b)) End
      = mapState (setInline (inline b + 1)) (andThen (ElementNoEscape e args b) End)"
    unfolding deeper_setInline [OF refl]
    by (rule ElementNoEscape_End_setInline) (use assms in simp_all)
  ultimately show "TagNoEscape e args (deeper b)
         = (case mapState (setInline (inline b + 1)) (andThen (ElementNoEscape e args b) End) of
              Ok x \<Rightarrow> Ok (setInline (inline b + 1) x)
            | Panic p x \<Rightarrow> Panic p (setInline (inline b + 1 + 1) x))"
    by simp
qed


lemma Ok_deeper:
  "Ok (g (deeper b)) = mapState deeper (Ok (g b)) \<and> (\<forall>x. Ok (g b) = Ok x \<longrightarrow> inline x = inline b)"
  if "\<And>k. g (setInline k b) = setInline k (g b)" for g :: "Builder \<Rightarrow> Builder"
proof -
  have "g (deeper b) = setInline (inline b + 1) (g b)"
    using that [of "inline b + 1"] by (simp add: deeper_setInline)
  moreover have "g b = setInline (inline b) (g b)"
    using that [of "inline b"] by (simp add: setInline_def)
  then have "inline (g b) = inline b" by (metis setInline_fields(1))
  ultimately show ?thesis by (simp add: deeper_setInline)
qed

lemma simple_deeper_Ok:
  assumes "\<And>k. 0 < k \<Longrightarrow> f (setInline k b) = mapState (setInline k) (f b)" "0 < inline b"
  shows "f (deeper b) = mapState deeper (f b) \<and> (\<forall>x. f b = Ok x \<longrightarrow> inline x = inline b)"
  using simple_deeper [of f b, OF assms] by auto

lemma exec_deeper:
  assumes "\<not> regionCall c" "1 \<le> inline b" "inline b + 2 \<le> maxInt"
  shows "exec c (deeper b) = mapState deeper (exec c b)
         \<and> (\<forall>x. exec c b = Ok x \<longrightarrow> inline x = inline b)"
proof (cases c)
  case (CElement e args)
  show ?thesis unfolding CElement exec.simps
    by (rule simple_deeper_Ok) (use assms in \<open>simp_all add: Element_setInline\<close>)
next
  case (CElementNoEscape e args)
  show ?thesis unfolding CElementNoEscape exec.simps
    by (rule simple_deeper_Ok) (use assms in \<open>simp_all add: ElementNoEscape_setInline\<close>)
next
  case (CAttr n v)
  show ?thesis unfolding CAttr exec.simps
    by (rule Ok_deeper) (simp add: Attr_setInline)
next
  case CEnd
  show ?thesis unfolding CEnd exec.simps
    by (rule simple_deeper_Ok) (use assms in \<open>simp_all add: End_setInline\<close>)
next
  case (CTag e args)
  show ?thesis unfolding CTag exec.simps
    by (rule Tag_deeper) (use assms in simp_all)
next
  case (CTagNoEscape e args)
  show ?thesis unfolding CTagNoEscape exec.simps
    by (rule TagNoEscape_deeper) (use assms in simp_all)
next
  case (CChars cs)
  show ?thesis unfolding CChars exec.simps
    by (rule simple_deeper_Ok) (use assms in \<open>simp_all add: Chars_setInline\<close>)
next
  case (CCharsNoEscape cs)
  show ?thesis unfolding CCharsNoEscape exec.simps
    by (rule simple_deeper_Ok) (use assms in \<open>simp_all add: CharsNoEscape_setInline\<close>)
next
  case (CCdata cs)
  show ?thesis unfolding CCdata exec.simps
    by (rule simple_deeper_Ok) (use assms in \<open>simp_all add: Cdata_setInline\<close>)
next
  case (CInstruct n args)
  show ?thesis unfolding CInstruct exec.simps
    by (rule simple_deeper_Ok) (use assms in \<open>simp_all add: Instruct_setInline\<close>)
next
  case CInstructXML
  show ?thesis unfolding CInstructXML exec.simps InstructXML_def
    by (rule simple_deeper_Ok) (use assms in \<open>simp_all add: Instruct_setInline\<close>)
next
  case (CDoctype d)
  show ?thesis unfolding CDoctype exec.simps
    by (rule Ok_deeper) (simp add: Doctype_def Fprint_setInline)
next
  case CFlush
  show ?thesis unfolding CFlush exec.simps Flush_def
    by (rule simple_deeper_Ok) (use assms in \<open>simp_all add: outputElement_setInline\<close>)
next
  case (COffset d)
  show ?thesis unfolding COffset exec.simps
    by (rule Ok_deeper) (simp add: Offset_def setInline_def)
next
  case (CIndent x)
  show ?thesis unfolding CIndent exec.simps
    by (rule Ok_deeper) (simp add: Indent_def setInline_def)
next
  case (CEmpty u)
  show ?thesis unfolding CEmpty exec.simps
    by (rule Ok_deeper) (simp add: Empty_def setInline_def)
next
  case CInline
  then show ?thesis using assms(1) by simp
next
  case CEndInline
  then show ?thesis using assms(1) by simp
qed

lemma run_deeper:
  assumes "\<forall>c \<in> set cs. \<not> regionCall c" "1 \<le> inline b" "inline b + 2 \<le> maxInt"
  shows "run cs (deeper b) = mapState deeper (run cs b)
         \<and> (\<forall>x. run cs b = Ok x \<longrightarrow> inline x = inline b)"
  using assms
proof (induction cs arbitrary: b)
  case Nil
  then show ?case by simp
next
  case (Cons c cs)
  have c: "exec c (deeper b) = mapState deeper (exec c b)"
    and keep: "\<forall>x. exec c b = Ok x \<longrightarrow> inline x = inline b"
    using exec_deeper [of c b] Cons.prems by simp_all
  show ?case
  proof (cases "exec c b")
    case (Ok x)
    then have "inline x = inline b" using keep by simp
    then have "run cs (deeper x) = mapState deeper (run cs x)
         \<and> (\<forall>y. run cs x = Ok y \<longrightarrow> inline y = inline x)"
      using Cons.IH [of x] Cons.prems by simp
    then show ?thesis using Ok c \<open>inline x = inline b\<close> by simp
  next
    case (Panic p x)
    then show ?thesis using c by simp
  qed
qed

lemma run_append: "run (xs @ ys) b = andThen (run xs b) (run ys)"
proof (induction xs arbitrary: b)
  case Nil
  then show ?case by simp
next
  case (Cons c xs)
  have "run (xs @ ys) = (\<lambda>x. andThen (run xs x) (run ys))"
    by (rule ext) (rule Cons.IH)
  then show ?case by (simp add: andThen_assoc)
qed

lemma andThen_run_Nil: "andThen r (run []) = r"
  by (cases r) simp_all

lemma run_single: "run [c] b = exec c b"
  by (cases "exec c b") simp_all

lemma doIndent_inline: "doIndent b = Ok (ind, z) \<Longrightarrow> inline z = inline b"
  by (drule doIndent_Ok) simp

lemma Inline_enters:
  assumes "0 \<le> inline b" "inline b + 1 \<le> maxInt" "Inline b = Ok x"
  shows "inline x = inline b + 1"
proof (cases "inline b = 0")
  case False
  then show ?thesis using assms
    by (auto simp: Inline_def maxInt_def wrap64_id)
next
  case True
  have flush: "inline y = 0" if "Flush b = Ok y" for y
    using that True
    by (auto simp: Flush_def outputElement_def Let_def andThen_def
        split: if_splits result.splits prod.splits dest!: doIndent_Ok)
  show ?thesis
  proof (cases "Flush b")
    case (Panic p y)
    then show ?thesis using assms(3) True by (simp add: Inline_def)
  next
    case (Ok y)
    let ?y = "y\<lparr>offset := wrap64 (offset y + 1)\<rparr>"
    have y0: "inline y = 0" using flush Ok by simp
    show ?thesis
    proof (cases "doIndent ?y")
      case (Panic p z)
      then show ?thesis using assms(3) True Ok by (simp add: Inline_def Let_def)
    next
      case inner: (Ok r)
      obtain ind z where r: "r = (ind, z)" by (cases r)
      have "inline z = 0" using doIndent_inline [of ?y ind z] inner r y0 by simp
      then show ?thesis using assms(3) True Ok inner r
        by (auto simp: Inline_def Let_def Fprint_def)
    qed
  qed
qed


text \<open>
  C3, as amended.  From a builder whose inline depth is not negative (and at least three
  below the largest \<open>int\<close>), and for every sequence \<open>S\<close> of calls other than \<open>Inline\<close> and
  \<open>EndInline\<close> themselves (\<open>Tag\<close> and \<open>TagNoEscape\<close> included), entering twice, running
  \<open>S\<close> and leaving twice puts the same bytes into the sink as entering once, running \<open>S\<close>
  and leaving once; the two runs panic together, and end in the same builder when they
  do not.  After two entries, \<open>S\<close> and one leave the builder is the one that one entry
  and \<open>S\<close> produce: the depth is still positive, so indentation and newlines stay
  suppressed.
\<close>

theorem inline_nesting_composes:
  assumes "0 \<le> inline b" "inline b + 3 \<le> maxInt" "\<forall>c \<in> set S. \<not> regionCall c"
  shows "written (run ([CInline, CInline] @ S @ [CEndInline, CEndInline]) b)
           = written (run ([CInline] @ S @ [CEndInline]) b)
       \<and> isOk (run ([CInline, CInline] @ S @ [CEndInline, CEndInline]) b)
           = isOk (run ([CInline] @ S @ [CEndInline]) b)
       \<and> (isOk (run ([CInline] @ S @ [CEndInline]) b) \<longrightarrow>
            run ([CInline, CInline] @ S @ [CEndInline, CEndInline]) b
              = run ([CInline] @ S @ [CEndInline]) b)
       \<and> (isOk (run ([CInline] @ S) b) \<longrightarrow>
            run ([CInline, CInline] @ S @ [CEndInline]) b = run ([CInline] @ S) b
            \<and> inline (stateOf (run ([CInline, CInline] @ S @ [CEndInline]) b)) = inline b + 1
            \<and> 0 < inline (stateOf (run ([CInline, CInline] @ S @ [CEndInline]) b)))"
proof (cases "Inline b")
  case (Panic p x)
  then show ?thesis by (simp add: written_def isOk_def)
next
  case (Ok b0)
  have n: "inline b0 = inline b + 1"
    using assms(1,2) Ok by (intro Inline_enters) simp_all
  have second: "Inline b0 = Ok (deeper b0)"
    using n assms(1,2) by (intro Inline_inside) simp_all
  have sim: "run S (deeper b0) = mapState deeper (run S b0)"
    and keep: "\<forall>x. run S b0 = Ok x \<longrightarrow> inline x = inline b0"
    using run_deeper [of S b0] assms n by simp_all
  have two: "run ([CInline, CInline] @ S @ ys) b = andThen (run S (deeper b0)) (run ys)" for ys
    using Ok second by (simp add: run_append)
  have one: "run ([CInline] @ S @ ys) b = andThen (run S b0) (run ys)" for ys
    using Ok by (simp add: run_append)
  have one': "run ([CInline] @ S) b = run S b0"
    using Ok by simp
  show ?thesis
  proof (cases "run S b0")
    case inner: (Panic p x)
    then show ?thesis
      unfolding two one one' sim
      by (simp add: written_def isOk_def deeper_def)
  next
    case inner: (Ok x)
    have x: "inline x = inline b + 1" using keep inner n by simp
    have leave: "EndInline (deeper x) = Ok x"
    proof -
      have "EndInline (deeper x) = Ok (setInline (inline (deeper x) - 1) (deeper x))"
        using x assms(1,2) by (intro EndInline_inside) (simp_all add: deeper_def)
      moreover have "setInline (inline (deeper x) - 1) (deeper x) = x"
        by (simp add: setInline_def deeper_def)
      ultimately show ?thesis by simp
    qed
    have A: "run ([CInline, CInline] @ S @ [CEndInline, CEndInline]) b = EndInline x"
      unfolding two sim inner using leave by (simp add: andThen_run_Nil)
    have B: "run ([CInline] @ S @ [CEndInline]) b = EndInline x"
      unfolding one inner by (simp add: andThen_run_Nil)
    have C: "run ([CInline, CInline] @ S @ [CEndInline]) b = Ok x"
      unfolding two sim inner using leave by simp
    show ?thesis
      unfolding A B C one' inner using x assms(1) by simp
  qed
qed


lemmas eval_defs = Element_def End_def Chars_def Tag_def Inline_def EndInline_def Flush_def
  outputElement_def doIndent_def indentValue_def Repeat_def Fprint_def Attr_def Let_def
  andThen_def written_def stateOf_def isOk_def New_def htmlEscaper_def htmlEscapeByte_def
  attrText_def attrEscaper_def attrEscapeByte_def lookup_def maxInt_def wrap64_def s_def

theorem inline_nesting_composes_witness:
  "0 \<le> inline inRoot \<and> inline inRoot + 3 \<le> maxInt
   \<and> \<not> regionCall (CElement ''li'' []) \<and> \<not> regionCall (CChars [Str ''Hello ''])
   \<and> \<not> regionCall (CTag ''b'' [Str ''there'']) \<and> \<not> regionCall CEnd
   \<and> written (run ([CInline, CInline]
                    @ [CElement ''li'' [], CChars [Str ''Hello ''], CTag ''b'' [Str ''there''], CEnd]
                    @ [CEndInline, CEndInline]) inRoot)
       = ''  <li>Hello <b>there</b></li>'' @ newline"
proof -
  let ?S = "[CElement ''li'' [], CChars [Str ''Hello ''], CTag ''b'' [Str ''there''], CEnd]"
  have h: "0 \<le> inline inRoot" "inline inRoot + 3 \<le> maxInt" "\<forall>c \<in> set ?S. \<not> regionCall c"
    by (simp_all add: inRoot_def New_def maxInt_def)
  have once: "written (run ([CInline] @ ?S @ [CEndInline]) inRoot) = ''  <li>Hello <b>there</b></li>'' @ newline"
    by (simp add: inRoot_def eval_defs)
  show ?thesis
    using inline_nesting_composes [OF h, THEN conjunct1] once h by simp
qed

text \<open>
  The claim as worded ranges over every builder.  After an \<open>EndInline\<close> that no
  \<open>Inline\<close> matches the depth is \<open>-1\<close>; then one entry brings it to 0, where \<open>Chars\<close>
  lays its text out in block form, while two entries bring it to 1: the two runs write
  different bytes, and one leave after two entries ends at depth 0, where block
  formatting has resumed.
\<close>

theorem inline_nesting_composes_counterexample:
  "inline unmatched = - 1
   \<and> written (run ([CInline, CInline] @ [CChars [Str ''x''], CChars [Str ''y'']]
                   @ [CEndInline, CEndInline]) unmatched)
       = ''<a>'' @ newline @ ''  xy'' @ newline
   \<and> written (run ([CInline] @ [CChars [Str ''x''], CChars [Str ''y'']] @ [CEndInline]) unmatched)
       = ''<a>'' @ newline @ ''  x'' @ newline @ ''  y'' @ newline
   \<and> inline (stateOf (run ([CInline, CInline] @ [CChars [Str ''x''], CChars [Str ''y'']]
                            @ [CEndInline]) unmatched)) = 0"
  by (simp add: unmatched_def eval_defs)

section \<open>Tag as a composition\<close>

lemma run_Cons_fun: "run (c # cs) = (\<lambda>b. andThen (exec c b) (run cs))"
  by (rule ext) simp

lemma run_leave: "run [CEndInline] = EndInline"
  by (rule ext) (simp add: andThen_run_Nil)

text \<open>
  C8.  \<open>Tag\<close> is the run of \<open>Inline\<close>, \<open>Element\<close> with the same name and arguments, \<open>End\<close>
  and \<open>EndInline\<close> from the same builder: the same result, hence the same bytes in the
  sink and the same builder at the end, also when one of the four panics.  \<open>TagNoEscape\<close>
  is the same composition around \<open>ElementNoEscape\<close>.
\<close>

theorem Tag_is_composition:
  "Tag e args b = run [CInline, CElement e args, CEnd, CEndInline] b
   \<and> written (Tag e args b) = written (run [CInline, CElement e args, CEnd, CEndInline] b)
   \<and> stateOf (Tag e args b) = stateOf (run [CInline, CElement e args, CEnd, CEndInline] b)
   \<and> TagNoEscape e args b = run [CInline, CElementNoEscape e args, CEnd, CEndInline] b"
proof -
  have T: "Tag e args b = run [CInline, CElement e args, CEnd, CEndInline] b"
    unfolding run_Cons_fun [of _ "_ # _"] run_leave
    by (simp add: Tag_def)
  have N: "TagNoEscape e args b = run [CInline, CElementNoEscape e args, CEnd, CEndInline] b"
    unfolding run_Cons_fun [of _ "_ # _"] run_leave
    by (simp add: TagNoEscape_def)
  show ?thesis using T N by simp
qed


theorem Tag_is_composition_witness:
  "written (Tag ''Joran'' [] New) = ''<Joran />'' @ newline
   \<and> written (run [CInline, CElement ''Joran'' [], CEnd, CEndInline] New) = ''<Joran />'' @ newline"
proof -
  have "written (run [CInline, CElement ''Joran'' [], CEnd, CEndInline] New) = ''<Joran />'' @ newline"
    by (simp add: eval_defs)
  then show ?thesis
    using Tag_is_composition [of "''Joran''" "[]" New] by simp
qed

section \<open>The attribute buffer stays coherent\<close>

text \<open>
  Every operation keeps the attribute buffer coherent, also in the builder a panic
  leaves behind; so the buffer is coherent in every builder a client can reach from
  \<open>New\<close>.
\<close>

lemma Fprint_coherent: "attrsCoherent (Fprint x b) = attrsCoherent b"
  by (simp add: Fprint_def attrsCoherent_def)

lemma doIndent_coherent_Ok: "doIndent b = Ok (ind, b1) \<Longrightarrow> attrsCoherent b1 = attrsCoherent b"
  by (drule doIndent_Ok) (simp add: attrsCoherent_def)

lemma coherent_Ok:
  "attrsCoherent (stateOf r) \<Longrightarrow> r = Ok x \<Longrightarrow> attrsCoherent x"
  by simp

lemma coherent_Panic:
  "attrsCoherent (stateOf r) \<Longrightarrow> r = Panic e x \<Longrightarrow> attrsCoherent x"
  by simp

lemma outputElement_coherent:
  "attrsCoherent b \<Longrightarrow> attrsCoherent (stateOf (outputElement close b))"
  by (auto simp: outputElement_def Let_def andThen_def attrsCoherent_def
      split: result.splits dest!: doIndent_Ok doIndent_Panic)

lemma indented_coherent:
  "attrsCoherent b \<Longrightarrow>
   attrsCoherent (stateOf (andThen (doIndent b) (\<lambda>(ind, b2). Ok (Fprint (g ind b2) b2))))"
  by (auto simp: andThen_def Fprint_coherent doIndent_coherent_Ok
      split: result.splits dest!: doIndent_Panic)

lemma Chars_coherent: "attrsCoherent b \<Longrightarrow> attrsCoherent (stateOf (Chars cs b))"
  using outputElement_coherent [of b False]
  by (cases "outputElement False b") (simp_all add: Chars_def Let_def Fprint_coherent indented_coherent)

lemma CharsNoEscape_coherent: "attrsCoherent b \<Longrightarrow> attrsCoherent (stateOf (CharsNoEscape cs b))"
  using outputElement_coherent [of b False]
  by (cases "outputElement False b")
    (simp_all add: CharsNoEscape_def Let_def Fprint_coherent indented_coherent)

lemma Cdata_coherent: "attrsCoherent b \<Longrightarrow> attrsCoherent (stateOf (Cdata cs b))"
  using outputElement_coherent [of b False]
  by (cases "outputElement False b") (simp_all add: Cdata_def Let_def Fprint_coherent indented_coherent)

lemma attrPairs_coherent: "attrsCoherent b \<Longrightarrow> attrsCoherent (attrPairs args b)"
  by (simp add: attrPairs_kept attrCalls_coherent)

lemma opened_coherent:
  "attrsCoherent b \<Longrightarrow>
   attrsCoherent (attrPairs args (b\<lparr>buildingElement := True, elements := elements b @ [e]\<rparr>))"
  by (rule attrPairs_coherent) (simp add: attrsCoherent_def)

lemma Element_coherent: "attrsCoherent b \<Longrightarrow> attrsCoherent (stateOf (Element e args b))"
  using outputElement_coherent [of b False]
  by (cases "outputElement False b")
    (simp_all add: Element_def Let_def Chars_coherent opened_coherent)

lemma ElementNoEscape_coherent:
  "attrsCoherent b \<Longrightarrow> attrsCoherent (stateOf (ElementNoEscape e args b))"
  using outputElement_coherent [of b False]
  by (cases "outputElement False b")
    (simp_all add: ElementNoEscape_def Let_def CharsNoEscape_coherent opened_coherent)

lemma End_coherent: "attrsCoherent b \<Longrightarrow> attrsCoherent (stateOf (End b))"
proof (cases "buildingElement b")
  case True
  assume "attrsCoherent b"
  then show ?thesis using True by (simp add: End_def outputElement_coherent)
next
  case False
  assume "attrsCoherent b"
  then show ?thesis using False
    by (auto simp: End_def andThen_def Let_def Fprint_def attrsCoherent_def
        split: result.splits dest!: doIndent_Ok doIndent_Panic)
qed

lemma Inline_coherent: "attrsCoherent b \<Longrightarrow> attrsCoherent (stateOf (Inline b))"
  using outputElement_coherent [of b False]
  by (cases "outputElement False b")
    (auto simp: Inline_def Flush_def andThen_def Let_def Fprint_def attrsCoherent_def
      split: result.splits dest!: doIndent_Ok doIndent_Panic)

lemma EndInline_coherent: "attrsCoherent b \<Longrightarrow> attrsCoherent (stateOf (EndInline b))"
  by (simp add: EndInline_def Let_def Fprint_def attrsCoherent_def)

lemma andThen_coherent:
  assumes "attrsCoherent (stateOf r)" "\<And>x. r = Ok x \<Longrightarrow> attrsCoherent (stateOf (f x))"
  shows "attrsCoherent (stateOf (andThen r f))"
  using assms by (cases r) simp_all

lemma Element_End_coherent:
  assumes "attrsCoherent (stateOf r)"
    and "\<And>x. attrsCoherent x \<Longrightarrow> attrsCoherent (stateOf (f x))"
  shows "attrsCoherent (stateOf (andThen r (\<lambda>b1. andThen (f b1) (\<lambda>b2. andThen (End b2) EndInline))))"
proof (rule andThen_coherent [OF assms(1)])
  fix x assume "r = Ok x"
  then have x: "attrsCoherent x" using assms(1) by simp
  show "attrsCoherent (stateOf (andThen (f x) (\<lambda>b2. andThen (End b2) EndInline)))"
  proof (rule andThen_coherent [OF assms(2) [OF x]])
    fix y assume "f x = Ok y"
    then have y: "attrsCoherent y" using assms(2) [OF x] by simp
    show "attrsCoherent (stateOf (andThen (End y) EndInline))"
    proof (rule andThen_coherent [OF End_coherent [OF y]])
      fix z assume "End y = Ok z"
      then have "attrsCoherent z" using End_coherent [OF y] by simp
      then show "attrsCoherent (stateOf (EndInline z))" by (rule EndInline_coherent)
    qed
  qed
qed

lemma Tag_coherent: "attrsCoherent b \<Longrightarrow> attrsCoherent (stateOf (Tag e args b))"
  unfolding Tag_def by (rule Element_End_coherent) (simp_all add: Inline_coherent Element_coherent)

lemma TagNoEscape_coherent: "attrsCoherent b \<Longrightarrow> attrsCoherent (stateOf (TagNoEscape e args b))"
  unfolding TagNoEscape_def
  by (rule Element_End_coherent) (simp_all add: Inline_coherent ElementNoEscape_coherent)

lemma instructPairs_coherent:
  "attrsCoherent b \<Longrightarrow> attrsCoherent (stateOf (instructPairs args b))"
  by (induction args b rule: instructPairs.induct) (simp_all add: Fprint_coherent)

lemma Instruct_coherent:
  assumes "attrsCoherent b"
  shows "attrsCoherent (stateOf (Instruct n args b))"
proof -
  have pairs: "attrsCoherent (stateOf (instructPairs args (Fprint (''<?'' @ n) b)))"
    by (rule instructPairs_coherent) (simp add: Fprint_coherent assms)
  show ?thesis
    unfolding Instruct_def
  proof (rule andThen_coherent [OF pairs])
    fix x assume "instructPairs args (Fprint (''<?'' @ n) b) = Ok x"
    then have "attrsCoherent x" using pairs by simp
    then show "attrsCoherent (stateOf (Ok (Fprint (''?>'' @ newline) x)))"
      by (simp add: Fprint_coherent)
  qed
qed

lemma exec_coherent: "attrsCoherent b \<Longrightarrow> attrsCoherent (stateOf (exec c b))"
  by (cases c)
    (simp_all add: Element_coherent ElementNoEscape_coherent Attr_coherent End_coherent Tag_coherent
      TagNoEscape_coherent Chars_coherent CharsNoEscape_coherent Cdata_coherent Instruct_coherent
      InstructXML_def Doctype_def Fprint_coherent Flush_def outputElement_coherent Inline_coherent
      EndInline_coherent, simp_all add: Offset_def Indent_def Empty_def attrsCoherent_def)

lemma run_coherent: "attrsCoherent b \<Longrightarrow> attrsCoherent (stateOf (run cs b))"
proof (induction cs arbitrary: b)
  case Nil
  then show ?case by simp
next
  case (Cons c cs)
  show ?case
    unfolding run.simps
    by (rule andThen_coherent) (use Cons exec_coherent [of b c] in auto)
qed

lemma reachable_coherent: "attrsCoherent (stateOf (run cs New))"
  by (rule run_coherent) (simp add: New_def attrsCoherent_def)

end
